theory Spec2Isabelle
  imports Complex_Main "HOL-Library.Word" "HOL-Library.List_Lexorder" "HOL-Library.Char_ord"
begin

unbundle bit_operations_syntax

section \<open>Profile functions (profiles.h, profiles.cxx)\<close>

subsection \<open>Numbers of type \<open>double\<close>\<close>

text \<open>
  The profile classes compute with \<open>double\<close>. A \<open>double\<close> is a finite number, a zero with a
  sign, an infinity or a NaN. A finite number is read as the real number it stands for:
  rounding and underflow are outside the model, overflow is inside it. \<open>Finite 0\<close> is
  \<open>+0.0\<close>.
\<close>

datatype double = Finite real | Minus_zero | Plus_infinity | Minus_infinity | NaN

definition is_nan :: "double \<Rightarrow> bool" where
  "is_nan d \<longleftrightarrow> d = NaN"

definition is_infinite :: "double \<Rightarrow> bool" where
  "is_infinite d \<longleftrightarrow> d = Plus_infinity \<or> d = Minus_infinity"

definition is_finite :: "double \<Rightarrow> bool" where
  "is_finite d \<longleftrightarrow> \<not> is_nan d \<and> \<not> is_infinite d"

definition is_zero :: "double \<Rightarrow> bool" where
  "is_zero d \<longleftrightarrow> d = Finite 0 \<or> d = Minus_zero"

fun sign_bit :: "double \<Rightarrow> bool" where
  "sign_bit (Finite r) = (r < 0)"
| "sign_bit Minus_zero = True"
| "sign_bit Plus_infinity = False"
| "sign_bit Minus_infinity = True"
| "sign_bit NaN = False"

fun real_of :: "double \<Rightarrow> real" where
  "real_of (Finite r) = r"
| "real_of Minus_zero = 0"
| "real_of Plus_infinity = 0"
| "real_of Minus_infinity = 0"
| "real_of NaN = 0"

text \<open>\<open>numeric_limits<double>::max()\<close>, the largest finite number.\<close>

definition max_double :: real where
  "max_double = (2 - 1 / 2 ^ 52) * 2 ^ 1023"

definition infinity :: "bool \<Rightarrow> double" where
  "infinity s = (if s then Minus_infinity else Plus_infinity)"

definition zero :: "bool \<Rightarrow> double" where
  "zero s = (if s then Minus_zero else Finite 0)"

text \<open>
  The \<open>double\<close> that an operation returns when its exact result is the real number \<open>r\<close> with
  the sign \<open>s\<close>: an infinity when \<open>r\<close> lies beyond the largest finite number.
\<close>

definition rounded :: "bool \<Rightarrow> real \<Rightarrow> double" where
  "rounded s r =
     (if \<bar>r\<bar> > max_double then infinity s else if r = 0 then zero s else Finite r)"

text \<open>A literal such as \<open>4.0\<close> or \<open>1.0E-06\<close>, and a constant given as a real number.\<close>

definition literal :: "real \<Rightarrow> double" where
  "literal r = rounded (r < 0) r"

text \<open>The operators \<open>*\<close>, \<open>/\<close>, \<open>+\<close>, unary and binary \<open>-\<close>, \<open><\<close>, \<open><=\<close> and \<open>==\<close>.\<close>

definition d_times :: "double \<Rightarrow> double \<Rightarrow> double" where
  "d_times a b =
     (if is_nan a \<or> is_nan b then NaN
      else if is_infinite a then (if is_zero b then NaN else infinity (sign_bit a \<noteq> sign_bit b))
      else if is_infinite b then (if is_zero a then NaN else infinity (sign_bit a \<noteq> sign_bit b))
      else rounded (sign_bit a \<noteq> sign_bit b) (real_of a * real_of b))"

definition d_divide :: "double \<Rightarrow> double \<Rightarrow> double" where
  "d_divide a b =
     (if is_nan a \<or> is_nan b then NaN
      else if is_infinite a then (if is_infinite b then NaN else infinity (sign_bit a \<noteq> sign_bit b))
      else if is_infinite b then zero (sign_bit a \<noteq> sign_bit b)
      else if is_zero b then (if is_zero a then NaN else infinity (sign_bit a \<noteq> sign_bit b))
      else rounded (sign_bit a \<noteq> sign_bit b) (real_of a / real_of b))"

definition d_plus :: "double \<Rightarrow> double \<Rightarrow> double" where
  "d_plus a b =
     (if is_nan a \<or> is_nan b then NaN
      else if is_infinite a then (if is_infinite b \<and> a \<noteq> b then NaN else a)
      else if is_infinite b then b
      else if is_zero a \<and> is_zero b then zero (sign_bit a \<and> sign_bit b)
      else rounded (real_of a + real_of b < 0) (real_of a + real_of b))"

fun d_uminus :: "double \<Rightarrow> double" where
  "d_uminus (Finite r) = (if r = 0 then Minus_zero else Finite (- r))"
| "d_uminus Minus_zero = Finite 0"
| "d_uminus Plus_infinity = Minus_infinity"
| "d_uminus Minus_infinity = Plus_infinity"
| "d_uminus NaN = NaN"

definition d_minus :: "double \<Rightarrow> double \<Rightarrow> double" where
  "d_minus a b = d_plus a (d_uminus b)"

definition d_less :: "double \<Rightarrow> double \<Rightarrow> bool" where
  "d_less a b \<longleftrightarrow>
     \<not> is_nan a \<and> \<not> is_nan b \<and>
     (a = Minus_infinity \<and> b \<noteq> Minus_infinity \<or> b = Plus_infinity \<and> a \<noteq> Plus_infinity \<or>
      is_finite a \<and> is_finite b \<and> real_of a < real_of b)"

definition d_less_eq :: "double \<Rightarrow> double \<Rightarrow> bool" where
  "d_less_eq a b \<longleftrightarrow>
     \<not> is_nan a \<and> \<not> is_nan b \<and>
     (a = Minus_infinity \<or> b = Plus_infinity \<or>
      is_finite a \<and> is_finite b \<and> real_of a \<le> real_of b)"

definition d_equal :: "double \<Rightarrow> double \<Rightarrow> bool" where
  "d_equal a b \<longleftrightarrow> \<not> is_nan a \<and> \<not> is_nan b \<and> (a = b \<or> is_zero a \<and> is_zero b)"

text \<open>\<open>std::abs\<close>, \<open>std::exp\<close> and \<open>pow(10.0, y)\<close>.\<close>

fun d_abs :: "double \<Rightarrow> double" where
  "d_abs (Finite r) = Finite \<bar>r\<bar>"
| "d_abs Minus_zero = Finite 0"
| "d_abs Plus_infinity = Plus_infinity"
| "d_abs Minus_infinity = Plus_infinity"
| "d_abs NaN = NaN"

fun d_exp :: "double \<Rightarrow> double" where
  "d_exp (Finite r) = rounded False (exp r)"
| "d_exp Minus_zero = Finite 1"
| "d_exp Plus_infinity = Plus_infinity"
| "d_exp Minus_infinity = Finite 0"
| "d_exp NaN = NaN"

fun pow_10 :: "double \<Rightarrow> double" where
  "pow_10 (Finite r) = rounded False (10 powr r)"
| "pow_10 Minus_zero = Finite 1"
| "pow_10 Plus_infinity = Plus_infinity"
| "pow_10 Minus_infinity = Finite 0"
| "pow_10 NaN = NaN"

text \<open>\<open>especia::sqr\<close> of base.h, for \<open>double\<close>: \<open>(x == number(0)) ? number(0) : x * x\<close>.\<close>

definition d_sqr :: "double \<Rightarrow> double" where
  "d_sqr x = (if d_equal x (Finite 0) then Finite 0 else d_times x x)"

subsection \<open>The Doppler profile\<close>

text \<open>\<open>SQRT_OF_PI\<close> of base.h (profiles.cxx spells it \<open>sqrt_of_pi\<close>).\<close>

definition sqrt_of_pi :: real where
  "sqrt_of_pi = 17724538509055160272981674833411451827975 / 10 ^ 40"

text \<open>
  Modelled from the spec: the constants \<open>speed_of_light\<close> (m/s) and \<open>micro\<close> that profiles.cxx
  reads from a version of base.h that is not under src/. The spec gives
  c = 299792.458 km/s and writes the unit of the variation of the fine-structure constant
  as 10^-6.
\<close>

definition speed_of_light :: real where
  "speed_of_light = 299792458"

definition micro :: real where
  "micro = 1 / 10 ^ 6"

text \<open>
  The remaining physical constants of the amplitude coefficient are not under src/ and the
  spec gives no values for them; they are parameters of the model.
\<close>

record constants =
  elementary_charge :: real
  electric_constant :: real
  electron_mass :: real

text \<open>The static members \<open>G_Doppler::C0\<close> and \<open>G_Doppler::C1\<close>.\<close>

definition G_Doppler_C0 :: double where
  "G_Doppler_C0 = d_times (literal (1 / 10 ^ 3)) (literal speed_of_light)"

definition G_Doppler_C1 :: "constants \<Rightarrow> double" where
  "G_Doppler_C1 k =
     d_divide (d_times (literal (1 / 10 ^ 6)) (d_sqr (literal (elementary_charge k))))
       (d_times
          (d_times (d_times (literal 4) (literal (electric_constant k)))
             (literal (electron_mass k)))
          (d_sqr (literal speed_of_light)))"

text \<open>
  The Gaussian \<open>f_g\<close> of profiles.cxx:
  \<open>(1.0 / (sqrt_of_pi * gamma)) * exp(-sqr(x / gamma))\<close>.
\<close>

definition f_g :: "double \<Rightarrow> double \<Rightarrow> double" where
  "f_g x gamma =
     d_times (d_divide (literal 1) (d_times (literal sqrt_of_pi) gamma))
       (d_exp (d_uminus (d_sqr (d_divide x gamma))))"

text \<open>
  \<open>truncate\<close> of profiles.h: \<open>abs(x) < c * b ? f(x, b) : 0.0\<close>. (Every record declares a
  \<open>truncate\<close> of its own, hence the suffix.)
\<close>

definition truncate_f ::
  "(double \<Rightarrow> double \<Rightarrow> double) \<Rightarrow> double \<Rightarrow> double \<Rightarrow> double \<Rightarrow> double" where
  "truncate_f f x b c = (if d_less (d_abs x) (d_times c b) then f x b else Finite 0)"

text \<open>
  \<open>G_Doppler\<close> (named \<open>Intergalactic_Doppler\<close> in profiles.h): the members \<open>c\<close>, \<open>b\<close>, \<open>a\<close>
  in declaration order, which is the order of the member initialisers:
  \<open>c(q[0] * (1.0 + q[2]) * (1.0 + q[3] / C0))\<close>, \<open>b(q[4] * c / C0)\<close> and
  \<open>a(C1 * q[1] * pow(10.0, q[5]) * (q[0] * c))\<close>. A parameter slice \<open>const double q[]\<close> is a
  list, read with \<open>!\<close>; every theorem that reads a slice fixes its length to the profile's
  \<open>parameter_count\<close>.
\<close>

record G_Doppler =
  gd_c :: double
  gd_b :: double
  gd_a :: double

definition G_Doppler :: "constants \<Rightarrow> double list \<Rightarrow> G_Doppler" where
  "G_Doppler k q =
     (let c = d_times (d_times (q ! 0) (d_plus (literal 1) (q ! 2)))
                (d_plus (literal 1) (d_divide (q ! 3) G_Doppler_C0));
          b = d_divide (d_times (q ! 4) c) G_Doppler_C0;
          a = d_times (d_times (d_times (G_Doppler_C1 k) (q ! 1)) (pow_10 (q ! 5)))
                (d_times (q ! 0) c)
      in \<lparr>gd_c = c, gd_b = b, gd_a = a\<rparr>)"

text \<open>\<open>G_Doppler::operator()\<close>: \<open>a * truncate(f_g, x - c, b, 4.0)\<close>.\<close>

definition G_Doppler_call :: "G_Doppler \<Rightarrow> double \<Rightarrow> double" where
  "G_Doppler_call p x = d_times (gd_a p) (truncate_f f_g (d_minus x (gd_c p)) (gd_b p) (literal 4))"

subsection \<open>The many-multiplet profile\<close>

text \<open>
  The constructor of \<open>A_Doppler\<close> (named \<open>Many_Multiplet\<close> in profiles.h) is read over the
  real numbers: every \<open>double\<close> is the real number it stands for, and rounding, infinities
  and NaN are outside this reading.
\<close>

text \<open>\<open>especia::sqr\<close> of base.h.\<close>

definition sqr :: "real \<Rightarrow> real" where
  "sqr x = (if x = 0 then 0 else x * x)"

text \<open>The static members \<open>A_Doppler::C0\<close> and \<open>A_Doppler::C1\<close>.\<close>

definition C0 :: real where
  "C0 = (1 / 10 ^ 3) * speed_of_light"

definition C1 :: "constants \<Rightarrow> real" where
  "C1 k = (1 / 10 ^ 6) * sqr (elementary_charge k) /
            (4 * electric_constant k * electron_mass k * sqr speed_of_light)"

text \<open>The members \<open>u\<close>, \<open>c\<close>, \<open>b\<close>, \<open>a\<close>.\<close>

record A_Doppler =
  ad_u :: real
  ad_c :: real
  ad_b :: real
  ad_a :: real

definition A_Doppler :: "constants \<Rightarrow> real list \<Rightarrow> A_Doppler" where
  "A_Doppler k q =
     (let u = 10 ^ 8 / (10 ^ 8 / q ! 0 + q ! 6 * (q ! 7 * micro) * (q ! 7 * micro + 2));
          c = u * (1 + q ! 2) * (1 + q ! 3 / C0);
          b = q ! 4 * c / C0;
          a = C1 k * q ! 1 * (10 powr (q ! 5)) * (u * c)
      in \<lparr>ad_u = u, ad_c = c, ad_b = b, ad_a = a\<rparr>)"

text \<open>
  The adjusted rest wavelength as the specification words it:
  \<open>1 / (1/q[0] + q[6] * (mu^2 + 2 mu) * 1e-6)\<close> with \<open>mu = q[7] * 1e-6\<close>. This definition
  follows the specification, not the code.
\<close>

definition spec_adjusted_rest_wavelength :: "real list \<Rightarrow> real" where
  "spec_adjusted_rest_wavelength q =
     (let mu = q ! 7 * (1 / 10 ^ 6)
      in 1 / (1 / q ! 0 + q ! 6 * (mu ^ 2 + 2 * mu) * (1 / 10 ^ 6)))"

section \<open>The bounded constraint (optimizer.h, model.h)\<close>

text \<open>
  \<open>Bounded_Constraint\<close> holds copies of the first \<open>n\<close> lower and upper bounds. The number
  type \<open>T\<close> is read as the reals.
\<close>

record Bounded_Constraint =
  bc_a :: "real list"
  bc_b :: "real list"

definition Bounded_Constraint :: "real list \<Rightarrow> real list \<Rightarrow> nat \<Rightarrow> Bounded_Constraint" where
  "Bounded_Constraint lower_bounds upper_bounds n =
     \<lparr>bc_a = take n lower_bounds, bc_b = take n upper_bounds\<rparr>"

text \<open>The loop of \<open>is_violated\<close>, entered at index \<open>i\<close>.\<close>

function is_violated_from :: "Bounded_Constraint \<Rightarrow> real list \<Rightarrow> nat \<Rightarrow> nat \<Rightarrow> bool" where
  "is_violated_from bc x n i =
     (if i < n
      then (if x ! i < bc_a bc ! i \<or> x ! i > bc_b bc ! i then True
            else is_violated_from bc x n (i + 1))
      else False)"
  by pat_completeness auto
termination
  by (relation "measure (\<lambda>(bc, x, n, i). n - i)") auto

declare is_violated_from.simps [simp del]

definition is_violated :: "Bounded_Constraint \<Rightarrow> real list \<Rightarrow> nat \<Rightarrow> bool" where
  "is_violated bc x n = is_violated_from bc x n 0"

definition constraint_cost :: "Bounded_Constraint \<Rightarrow> real list \<Rightarrow> nat \<Rightarrow> real" where
  "constraint_cost bc x n = 0"


section \<open>The eigenproblem solver (decompose.h, decompose.cxx)\<close>

text \<open>
  The LAPACK routine \<open>dsyevr\<close> is not part of the repository. It is a parameter of the
  model: a function from the problem dimension \<open>n\<close>, the matrix it is given and the sizes
  \<open>lwork\<close> and \<open>liwork\<close> of its workspaces to what it leaves behind: the status \<open>info\<close>, the
  number \<open>m\<close> of eigenvalues found, the arrays \<open>w\<close> and \<open>Z\<close>, and the workspace sizes
  \<open>work[0]\<close> and \<open>iwork[0]\<close> that it reports when it is queried. The arguments \<open>job\<close>, \<open>range\<close>,
  \<open>uplo\<close>, \<open>vl\<close>, \<open>vu\<close>, \<open>il\<close>, \<open>iu\<close> and \<open>abstol\<close> are constants of decompose.cxx.
\<close>

record syevr_result =
  sr_info :: int
  sr_m :: int
  sr_w :: "double list"
  sr_Z :: "double list"
  sr_lwork :: int
  sr_liwork :: int

type_synonym syevr = "int \<Rightarrow> double list \<Rightarrow> int \<Rightarrow> int \<Rightarrow> syevr_result"

text \<open>The exceptions \<open>runtime_error\<close> and \<open>invalid_argument\<close>.\<close>

datatype exception = Runtime_error | Invalid_argument

text \<open>The members \<open>n\<close>, \<open>lwork\<close> and \<open>liwork\<close> of \<open>R_Decompose\<close>; the other members are workspace.\<close>

record R_Decompose =
  rd_n :: int
  rd_lwork :: int
  rd_liwork :: int

text \<open>
  The constructor \<open>R_Decompose(n_in)\<close> with \<open>allocate_workspace\<close>, which queries the routine
  for the sizes of its workspaces (\<open>lwork = -1\<close>, \<open>liwork = -1\<close>, no matrix).
\<close>

definition R_Decompose :: "syevr \<Rightarrow> nat \<Rightarrow> exception + R_Decompose" where
  "R_Decompose routine n_in =
     (let out = routine (int n_in) [] (- 1) (- 1)
      in if sr_info out = 0
         then Inr \<lparr>rd_n = int n_in, rd_lwork = sr_lwork out, rd_liwork = sr_liwork out\<rparr>
         else if sr_info out > 0 then Inl Runtime_error
         else Inl Invalid_argument)"

text \<open>\<open>swap(A[i], A[j])\<close>, and \<open>transpose\<close>, which turns column-major into row-major layout.\<close>

definition swap :: "nat \<Rightarrow> nat \<Rightarrow> 'a list \<Rightarrow> 'a list" where
  "swap i j xs = xs[i := xs ! j, j := xs ! i]"

definition transpose_m :: "int \<Rightarrow> double list \<Rightarrow> double list" where
  "transpose_m n A =
     fold (\<lambda>i A. fold (\<lambda>j A. swap (i * nat n + j) (j * nat n + i) A) [0..<i] A) [0..<nat n] A"

text \<open>
  The call of the routine in \<open>operator()\<close>, on the copy of the first \<open>n * n\<close> entries of \<open>A\<close>.
\<close>

definition call_syevr :: "syevr \<Rightarrow> R_Decompose \<Rightarrow> double list \<Rightarrow> syevr_result" where
  "call_syevr routine d A =
     routine (rd_n d) (take (nat (rd_n d * rd_n d)) A) (rd_lwork d) (rd_liwork d)"

text \<open>
  \<open>R_Decompose::operator()\<close>: the exception thrown, or the arrays \<open>Z\<close> and \<open>w\<close> that the caller
  finds when it returns.
\<close>

definition R_Decompose_call ::
  "syevr \<Rightarrow> R_Decompose \<Rightarrow> double list \<Rightarrow> exception + (double list \<times> double list)" where
  "R_Decompose_call routine d A =
     (let out = call_syevr routine d A
      in if sr_info out = 0 then Inr (transpose_m (rd_n d) (sr_Z out), sr_w out)
         else if sr_info out > 0 then Inl Runtime_error
         else Inl Invalid_argument)"

text \<open>
  A routine that reports success whatever it is given, and hands the matrix back as
  eigenvectors and its first \<open>n\<close> entries as eigenvalues.
\<close>

definition accepting_syevr :: syevr where
  "accepting_syevr n a lwork liwork =
     \<lparr>sr_info = 0, sr_m = n, sr_w = take (nat n) a, sr_Z = a, sr_lwork = 1, sr_liwork = 1\<rparr>"

section \<open>The model (model.h)\<close>

subsection \<open>Input, environment and state\<close>

text \<open>
  \<open>Model::get\<close> first copies its input, strips comments and empty lines, and cuts the
  text at every \<open>end_of_section\<close> character; the text after the last one is skipped
  (\<open>if (!st.eof())\<close>). The embedding starts from these pieces. A piece is one of: a text
  without \<open>begin_of_section\<close>; a text whose head
  \<open>ist >> sid >> fn >> a >> b >> p and getline(ist, s2)\<close> cannot be read; or a section source
  with its head, the pairs read from \<open>s2\<close>, the resolution parameter line and the lines.
  A parameter line \<open>value lo up mask [ref]\<close> is a \<open>spec\<close>; the reference is the empty string
  when the line has none. A block of parameter lines is \<open>None\<close> when the stream extraction
  inside \<open>read\<close> fails on it.
\<close>

datatype spec = Spec (s_val: real) (s_lo: real) (s_up: real) (s_msk: bool) (s_ref: string)

datatype line_src = Line_src (line_pid: string) (line_params: "spec list option")

record section_src =
  src_sid :: string
  src_fn :: string
  src_a :: real
  src_b :: real
  src_p :: nat
  src_masks :: "(real \<times> real) list"
  src_resolution :: "spec list option"
  src_lines :: "line_src list"

datatype chunk = No_begin_of_section | Bad_head | Section_chunk section_src

text \<open>The messages that \<open>get\<close> writes to \<open>cerr\<close> before an error return.\<close>

datatype error =
    Duplicate_line_identifier
  | Duplicate_section_identifier
  | File_not_found
  | Input_failed
  | Self_reference
  | Syntax_error
  | Reference_not_found

text \<open>The state flags of the input stream \<open>is\<close>.\<close>

record ios_state =
  badbit :: bool
  failbit :: bool
  eofbit :: bool

text \<open>
  \<open>especia::Section\<close> (section.h) and the file system are not under src/. Their operations
  are parameters of the model: opening a data file (\<open>None\<close>: the stream is not good),
  \<open>Section::get\<close> (\<open>None\<close>: it fails), \<open>Section::mask\<close>, \<open>Section::cost\<close> and
  \<open>Section::apply\<close>. A superposition \<open>Superposition<Profile>(n, q)\<close> is passed as the
  number of profiles and the parameter values it reads.
\<close>

record ('f, 's) env =
  open_file :: "string \<Rightarrow> 'f option"
  section_get :: "'f \<Rightarrow> real \<Rightarrow> real \<Rightarrow> 's option"
  section_mask :: "'s \<Rightarrow> real \<Rightarrow> real \<Rightarrow> 's"
  section_cost :: "'s \<Rightarrow> nat \<Rightarrow> real list \<Rightarrow> real \<Rightarrow> nat \<Rightarrow> real"
  section_apply :: "'s \<Rightarrow> nat \<Rightarrow> real list \<Rightarrow> real \<Rightarrow> nat \<Rightarrow> 's"

text \<open>
  The data members of \<open>Model\<close>. A \<open>std::map<std::string, Nint_t>\<close> is an association list
  sorted by key, which is the order in which the map is iterated.
\<close>

record 's Model =
  sec :: "'s list"
  isc :: "nat list"
  nle :: "nat list"
  nli :: "nat list"
  val :: "real list"
  err :: "real list"
  lo :: "real list"
  up :: "real list"
  msk :: "bool list"
  ind :: "nat list"
  sim :: "(string \<times> nat) list"
  pim :: "(string \<times> nat) list"

text \<open>The local variables of \<open>get\<close> that shadow the members, and \<open>ref\<close>.\<close>

record 's locals =
  l_sec :: "'s list"
  l_isc :: "nat list"
  l_nle :: "nat list"
  l_nli :: "nat list"
  l_val :: "real list"
  l_lo :: "real list"
  l_up :: "real list"
  l_msk :: "bool list"
  l_ind :: "nat list"
  l_pim :: "(string \<times> nat) list"
  l_sim :: "(string \<times> nat) list"
  l_ref :: "string list"

definition empty_locals :: "'s locals" where
  "empty_locals = \<lparr>l_sec = [], l_isc = [], l_nle = [], l_nli = [], l_val = [], l_lo = [],
     l_up = [], l_msk = [], l_ind = [], l_pim = [], l_sim = [], l_ref = []\<rparr>"

text \<open>\<open>m[key] = v\<close> on a \<open>std::map\<close>.\<close>

fun map_insert :: "string \<Rightarrow> nat \<Rightarrow> (string \<times> nat) list \<Rightarrow> (string \<times> nat) list" where
  "map_insert key v [] = [(key, v)]"
| "map_insert key v ((key', v') # m) =
     (if key < key' then (key, v) # (key', v') # m
      else if key = key' then (key, v) # m
      else (key', v') # map_insert key v m)"

subsection \<open>Reading the sections\<close>

text \<open>
  \<open>read(ist, val, lo, up, msk, ref, n, '\n', true)\<close> of readline.h: the vectors grow by the
  \<open>n\<close> lines read, or stay as they are when the stream has failed.
\<close>

definition read :: "nat \<Rightarrow> spec list option \<Rightarrow> spec list option" where
  "read n src = (case src of None \<Rightarrow> None | Some ps \<Rightarrow> if length ps = n then Some ps else None)"

definition append_specs :: "spec list \<Rightarrow> 's locals \<Rightarrow> 's locals" where
  "append_specs ps L =
     L\<lparr>l_val := l_val L @ map s_val ps, l_lo := l_lo L @ map s_lo ps,
       l_up := l_up L @ map s_up ps, l_msk := l_msk L @ map s_msk ps,
       l_ref := l_ref L @ map s_ref ps\<rparr>"

text \<open>
  The loop \<open>while (ist >> pid)\<close> over the lines of one section; \<open>pc\<close> is
  \<open>Profile::parameter_count\<close>, \<open>i\<close> the running parameter index and \<open>k\<close> the line count.
\<close>

fun get_lines ::
  "nat \<Rightarrow> line_src list \<Rightarrow> 's locals \<Rightarrow> nat \<Rightarrow> nat \<Rightarrow> error + ('s locals \<times> nat \<times> nat)" where
  "get_lines pc [] L i k = Inr (L, i, k)"
| "get_lines pc (Line_src pid params # ls) L i k =
     (if map_of (l_pim L) pid = None
      then (case read pc params of
              Some ps \<Rightarrow>
                get_lines pc ls (append_specs ps (L\<lparr>l_pim := map_insert pid i (l_pim L)\<rparr>))
                  (i + pc) (k + 1)
            | None \<Rightarrow> Inl Input_failed)
      else Inl Duplicate_line_identifier)"

text \<open>The body of the loop \<open>while (getline(st, line, end_of_section))\<close> for one piece.\<close>

definition get_section ::
  "('f, 's) env \<Rightarrow> nat \<Rightarrow> chunk \<Rightarrow> 's locals \<Rightarrow> nat \<Rightarrow> error + ('s locals \<times> nat)" where
  "get_section env pc c L i =
     (case c of
        No_begin_of_section \<Rightarrow> Inl Syntax_error
      | Bad_head \<Rightarrow> Inl Input_failed
      | Section_chunk src \<Rightarrow>
          if map_of (l_sim L) (src_sid src) = None
          then (case open_file env (src_fn src) of
                  None \<Rightarrow> Inl File_not_found
                | Some ifs \<Rightarrow>
                   (case section_get env ifs (src_a src) (src_b src) of
                      None \<Rightarrow> Inl Input_failed
                    | Some s \<Rightarrow>
                       (case read 1 (src_resolution src) of
                          None \<Rightarrow> Inl Input_failed
                        | Some ps \<Rightarrow>
                           (case get_lines pc (src_lines src)
                                   (append_specs ps
                                      (L\<lparr>l_sim := map_insert (src_sid src) (length (l_sec L)) (l_sim L),
                                         l_sec := l_sec L @ [fold (\<lambda>(a, b) s. section_mask env s a b) (src_masks src) s],
                                         l_isc := l_isc L @ [i],
                                         l_nle := l_nle L @ [src_p src]\<rparr>))
                                   (i + 1) 0 of
                              Inl e \<Rightarrow> Inl e
                            | Inr (L', i', k) \<Rightarrow> Inr (L'\<lparr>l_nli := l_nli L' @ [k]\<rparr>, i')))))
          else Inl Duplicate_section_identifier)"

fun get_chunks ::
  "('f, 's) env \<Rightarrow> nat \<Rightarrow> chunk list \<Rightarrow> 's locals \<Rightarrow> nat \<Rightarrow> error + ('s locals \<times> nat)" where
  "get_chunks env pc [] L i = Inr (L, i)"
| "get_chunks env pc (c # cs) L i =
     (case get_section env pc c L i of
        Inl e \<Rightarrow> Inl e
      | Inr (L', i') \<Rightarrow> get_chunks env pc cs L' i')"

subsection \<open>Indexing and dereferencing\<close>

text \<open>The loop that indexes the independent parameters.\<close>

function index_loop :: "'s locals \<Rightarrow> nat \<Rightarrow> nat \<Rightarrow> 's locals" where
  "index_loop L i k =
     (if i < length (l_msk L)
      then (if l_msk L ! i \<and> l_ref L ! i = []
            then index_loop
                   ((if l_lo L ! i > l_up L ! i
                     then L\<lparr>l_lo := (l_lo L)[i := l_up L ! i], l_up := (l_up L)[i := l_lo L ! i]\<rparr>
                     else L)\<lparr>l_ind := l_ind L @ [k]\<rparr>) (i + 1) (k + 1)
            else index_loop
                   (L\<lparr>l_lo := (l_lo L)[i := 0], l_up := (l_up L)[i := 0], l_ind := l_ind L @ [0]\<rparr>)
                   (i + 1) k)
      else L)"
  by pat_completeness auto
termination
  by (relation "measure (\<lambda>(L, i, k). length (l_msk L) - i)") auto

declare index_loop.simps [simp del]

text \<open>
  A \<open>while\<close> loop whose body either leaves the loop, returns from \<open>get\<close> with an error, or
  goes round again. The loop need not terminate: \<open>None\<close> is a loop that runs forever.
\<close>

datatype 'a step = Done 'a | Fail error | Continue 'a

partial_function (option) while_loop :: "('a \<Rightarrow> 'a step) \<Rightarrow> 'a \<Rightarrow> (error + 'a) option" where
  "while_loop body s =
     (case body s of
        Done s' \<Rightarrow> Some (Inr s')
      | Fail e \<Rightarrow> Some (Inl e)
      | Continue s' \<Rightarrow> while_loop body s')"

declare while_loop.simps [code]

text \<open>The assignments that copy parameter \<open>k\<close> to parameter \<open>j\<close>.\<close>

definition copy_parameter :: "nat \<Rightarrow> nat \<Rightarrow> 's locals \<Rightarrow> 's locals" where
  "copy_parameter k j L =
     L\<lparr>l_val := (l_val L)[j := l_val L ! k], l_lo := (l_lo L)[j := l_lo L ! k],
       l_up := (l_up L)[j := l_up L ! k], l_msk := (l_msk L)[j := l_msk L ! k],
       l_ind := (l_ind L)[j := l_ind L ! k]\<rparr>"

text \<open>One test and body of \<open>while (!ref[j].empty())\<close> for a resolution parameter.\<close>

definition deref_section_step :: "nat \<Rightarrow> 's locals \<Rightarrow> 's locals step" where
  "deref_section_step j L =
     (if l_ref L ! j = [] then Done L
      else (case map_of (l_sim L) (l_ref L ! j) of
              None \<Rightarrow> Fail Reference_not_found
            | Some v \<Rightarrow>
                if j \<noteq> l_isc L ! v
                then Continue ((if l_ref L ! (l_isc L ! v) = [] then copy_parameter (l_isc L ! v) j L else L)
                                 \<lparr>l_ref := (l_ref L)[j := l_ref L ! (l_isc L ! v)]\<rparr>)
                else Fail Self_reference))"

fun deref_sections :: "(string \<times> nat) list \<Rightarrow> 's locals \<Rightarrow> (error + 's locals) option" where
  "deref_sections [] L = Some (Inr L)"
| "deref_sections ((sid, v) # es) L =
     (case while_loop (deref_section_step (l_isc L ! v)) L of
        None \<Rightarrow> None
      | Some (Inl e) \<Rightarrow> Some (Inl e)
      | Some (Inr L') \<Rightarrow> deref_sections es L')"

text \<open>
  One test and body of \<open>while (!ref[k].empty())\<close> for parameter \<open>j\<close> of the line that
  starts at index \<open>v\<close>.
\<close>

definition deref_line_step :: "nat \<Rightarrow> nat \<Rightarrow> 's locals \<Rightarrow> 's locals step" where
  "deref_line_step v j L =
     (if l_ref L ! (v + j) = [] then Done L
      else (case map_of (l_pim L) (l_ref L ! (v + j)) of
              None \<Rightarrow> Fail Reference_not_found
            | Some v' \<Rightarrow>
                if v + j \<noteq> v' + j
                then Continue ((if l_ref L ! (v' + j) = [] then copy_parameter (v' + j) (v + j) L else L)
                                 \<lparr>l_ref := (l_ref L)[v + j := l_ref L ! (v' + j)]\<rparr>)
                else Fail Self_reference))"

function deref_line :: "nat \<Rightarrow> nat \<Rightarrow> nat \<Rightarrow> 's locals \<Rightarrow> (error + 's locals) option" where
  "deref_line pc v j L =
     (if j < pc
      then (case while_loop (deref_line_step v j) L of
              None \<Rightarrow> None
            | Some (Inl e) \<Rightarrow> Some (Inl e)
            | Some (Inr L') \<Rightarrow> deref_line pc v (j + 1) L')
      else Some (Inr L))"
  by pat_completeness auto
termination
  by (relation "measure (\<lambda>(pc, v, j, L). pc - j)") auto

declare deref_line.simps [simp del]

fun deref_lines :: "nat \<Rightarrow> (string \<times> nat) list \<Rightarrow> 's locals \<Rightarrow> (error + 's locals) option" where
  "deref_lines pc [] L = Some (Inr L)"
| "deref_lines pc ((lid, v) # es) L =
     (case deref_line pc v 0 L of
        None \<Rightarrow> None
      | Some (Inl e) \<Rightarrow> Some (Inl e)
      | Some (Inr L') \<Rightarrow> deref_lines pc es L')"

subsection \<open>\<open>Model::get\<close>\<close>

text \<open>
  The assignments to the members at the end of a successful \<open>get\<close>. The vectors copied
  into a resized member have the member's new size: \<open>isc\<close>, \<open>nle\<close>, \<open>nli\<close> have one entry
  for each section, and the parameter vectors have one entry for each parameter read.
  \<open>err\<close> is resized only, which sets every element to zero.
\<close>

definition store :: "'s locals \<Rightarrow> 's Model \<Rightarrow> 's Model" where
  "store L m =
     m\<lparr>sec := l_sec L, isc := l_isc L, nle := l_nle L, nli := l_nli L,
       val := l_val L, err := replicate (length (l_msk L)) 0,
       lo := l_lo L, up := l_up L, msk := l_msk L, ind := l_ind L,
       sim := l_sim L, pim := l_pim L\<rparr>"

text \<open>
  \<open>get\<close> returns the error reported (if any), the flags of \<open>is\<close> and the model, or \<open>None\<close>
  when it does not return. \<open>ios\<close> holds the flags of \<open>is\<close> once the input has been read.
\<close>

definition get ::
  "('f, 's) env \<Rightarrow> nat \<Rightarrow> chunk list \<Rightarrow> ios_state \<Rightarrow> 's Model
     \<Rightarrow> (error option \<times> ios_state \<times> 's Model) option" where
  "get env pc chunks ios m =
     (case get_chunks env pc chunks empty_locals 0 of
        Inl e \<Rightarrow> Some (Some e, ios\<lparr>badbit := True, failbit := True\<rparr>, m)
      | Inr (L, i) \<Rightarrow>
          (case deref_sections (l_sim L) (index_loop L 0 0) of
             None \<Rightarrow> None
           | Some (Inl e) \<Rightarrow> Some (Some e, ios\<lparr>failbit := True\<rparr>, m)
           | Some (Inr L1) \<Rightarrow>
               (case deref_lines pc (l_pim L1) L1 of
                  None \<Rightarrow> None
                | Some (Inl e) \<Rightarrow> Some (Some e, ios\<lparr>failbit := True\<rparr>, m)
                | Some (Inr L2) \<Rightarrow> Some (None, ios\<lparr>failbit := False\<rparr>, store L2 m))))"

subsection \<open>The operations on a model\<close>

text \<open>
  \<open>ind.max()\<close>. The maximum of an empty \<open>valarray\<close> is undefined in C++: \<open>None\<close>.
\<close>

definition valarray_max :: "nat list \<Rightarrow> nat option" where
  "valarray_max xs = (if xs = [] then None else Some (foldr max xs 0))"

text \<open>
  \<open>get_parameter_count\<close> and the functions that call it are undefined where \<open>ind.max()\<close>
  is.
\<close>

definition get_parameter_count :: "'s Model \<Rightarrow> nat option" where
  "get_parameter_count m = map_option (\<lambda>k. k + 1) (valarray_max (ind m))"

function initial_parameter_values_loop :: "'s Model \<Rightarrow> real list \<Rightarrow> nat \<Rightarrow> nat \<Rightarrow> real list" where
  "initial_parameter_values_loop m x i j =
     (if i < length (msk m)
      then (if msk m ! i \<and> ind m ! i = j
            then initial_parameter_values_loop m (x[j := 0.5 * (lo m ! i + up m ! i)]) (i + 1) (j + 1)
            else initial_parameter_values_loop m x (i + 1) j)
      else x)"
  by pat_completeness auto
termination
  by (relation "measure (\<lambda>(m, x, i, j). length (msk m) - i)") auto

declare initial_parameter_values_loop.simps [simp del]

definition get_initial_parameter_values :: "'s Model \<Rightarrow> real list option" where
  "get_initial_parameter_values m =
     map_option (\<lambda>n. initial_parameter_values_loop m (replicate n 0) 0 0) (get_parameter_count m)"

function initial_local_step_sizes_loop :: "'s Model \<Rightarrow> real list \<Rightarrow> nat \<Rightarrow> nat \<Rightarrow> real list" where
  "initial_local_step_sizes_loop m z i j =
     (if i < length (msk m)
      then (if msk m ! i \<and> ind m ! i = j
            then initial_local_step_sizes_loop m (z[j := 0.5 * (up m ! i - lo m ! i)]) (i + 1) (j + 1)
            else initial_local_step_sizes_loop m z (i + 1) j)
      else z)"
  by pat_completeness auto
termination
  by (relation "measure (\<lambda>(m, z, i, j). length (msk m) - i)") auto

declare initial_local_step_sizes_loop.simps [simp del]

definition get_initial_local_step_sizes :: "'s Model \<Rightarrow> real list option" where
  "get_initial_local_step_sizes m =
     map_option (\<lambda>n. initial_local_step_sizes_loop m (replicate n 0) 0 0) (get_parameter_count m)"

text \<open>
  \<open>Model::cost\<close>, in state-passing style. The state holds the model (the object the
  member function is called on, \<open>cs_this\<close>) and the local variables \<open>y\<close> and \<open>d\<close>; every
  assignment of the function body is an update of this state, and \<open>cost\<close> returns the
  value of \<open>d\<close> together with the model it leaves behind.
\<close>

record 's cost_state =
  cs_this :: "'s Model"
  cs_y :: "real list"
  cs_d :: real

function splice_loop :: "real list \<Rightarrow> 's cost_state \<Rightarrow> nat \<Rightarrow> 's cost_state" where
  "splice_loop x st i =
     (if i < length (cs_y st)
      then splice_loop x
             (if msk (cs_this st) ! i then st\<lparr>cs_y := (cs_y st)[i := x ! (ind (cs_this st) ! i)]\<rparr> else st)
             (i + 1)
      else st)"
  by pat_completeness auto
termination
  by (relation "measure (\<lambda>(x, st, i). length (cs_y st) - i)") auto

declare splice_loop.simps [simp del]

function cost_loop :: "('f, 's) env \<Rightarrow> nat \<Rightarrow> 's cost_state \<Rightarrow> nat \<Rightarrow> 's cost_state" where
  "cost_loop env pc st i =
     (if i < length (sec (cs_this st))
      then cost_loop env pc
             (st\<lparr>cs_d := cs_d st +
                  section_cost env (sec (cs_this st) ! i) (nli (cs_this st) ! i)
                    (take (nli (cs_this st) ! i * pc) (drop (isc (cs_this st) ! i + 1) (cs_y st)))
                    (cs_y st ! (isc (cs_this st) ! i)) (nle (cs_this st) ! i)\<rparr>)
             (i + 1)
      else st)"
  by pat_completeness auto
termination
  by (relation "measure (\<lambda>(env, pc, st, i). length (sec (cs_this st)) - i)") auto

declare cost_loop.simps [simp del]

definition cost :: "('f, 's) env \<Rightarrow> nat \<Rightarrow> 's Model \<Rightarrow> real list \<Rightarrow> nat \<Rightarrow> real \<times> 's Model" where
  "cost env pc m x n =
     (let st = cost_loop env pc (splice_loop x \<lparr>cs_this = m, cs_y = val m, cs_d = 0\<rparr> 0) 0
      in (cs_d st, cs_this st))"

text \<open>\<open>Model::operator()\<close>, which returns \<open>cost(x, n)\<close>.\<close>

definition objective :: "('f, 's) env \<Rightarrow> nat \<Rightarrow> 's Model \<Rightarrow> real list \<Rightarrow> nat \<Rightarrow> real \<times> 's Model" where
  "objective env pc m x n = cost env pc m x n"

text \<open>\<open>Model::set\<close>, which writes the optimized values and their uncertainties back.\<close>

function set_values_loop :: "real list \<Rightarrow> real list \<Rightarrow> 's Model \<Rightarrow> nat \<Rightarrow> 's Model" where
  "set_values_loop x z m i =
     (if i < length (val m)
      then set_values_loop x z
             (if msk m ! i
              then m\<lparr>val := (val m)[i := x ! (ind m ! i)], err := (err m)[i := z ! (ind m ! i)]\<rparr>
              else m\<lparr>err := (err m)[i := 0]\<rparr>) (i + 1)
      else m)"
  by pat_completeness auto
termination
  by (relation "measure (\<lambda>(x, z, m, i). length (val m) - i)") auto

declare set_values_loop.simps [simp del]

function set_sections_loop :: "('f, 's) env \<Rightarrow> nat \<Rightarrow> 's Model \<Rightarrow> nat \<Rightarrow> 's Model" where
  "set_sections_loop env pc m i =
     (if i < length (sec m)
      then set_sections_loop env pc
             (m\<lparr>sec := (sec m)[i := section_apply env (sec m ! i) (nli m ! i)
                                     (take (nli m ! i * pc) (drop (isc m ! i + 1) (val m)))
                                     (val m ! (isc m ! i)) (nle m ! i)]\<rparr>) (i + 1)
      else m)"
  by pat_completeness auto
termination
  by (relation "measure (\<lambda>(env, pc, m, i). length (sec m) - i)") auto

declare set_sections_loop.simps [simp del]

definition set_model :: "('f, 's) env \<Rightarrow> nat \<Rightarrow> 's Model \<Rightarrow> real list \<Rightarrow> real list \<Rightarrow> 's Model" where
  "set_model env pc m x z = set_sections_loop env pc (set_values_loop x z m 0) 0"

subsection \<open>Example inputs\<close>

text \<open>
  An environment in which every data file opens and is read, a model that has not read
  anything yet, and the flags of an input stream that has been read to its end.
\<close>

definition trivial_env :: "(unit, unit) env" where
  "trivial_env =
     \<lparr>open_file = (\<lambda>fn. Some ()), section_get = (\<lambda>f a b. Some ()),
      section_mask = (\<lambda>s a b. s), section_cost = (\<lambda>s n q r p. 0),
      section_apply = (\<lambda>s n q r p. s)\<rparr>"

definition empty_model :: "unit Model" where
  "empty_model =
     \<lparr>sec = [], isc = [], nle = [], nli = [], val = [], err = [], lo = [], up = [],
      msk = [], ind = [], sim = [], pim = []\<rparr>"

definition ios_at_eof :: ios_state where
  "ios_at_eof = \<lparr>badbit = False, failbit = True, eofbit = True\<rparr>"

text \<open>
  The six parameter lines of a Doppler line: rest wavelength, oscillator strength,
  redshift, radial velocity, broadening velocity and logarithmic column density. The
  redshift line is given; the other parameters are pinned and not linked.
\<close>

definition doppler_line :: "spec \<Rightarrow> spec list" where
  "doppler_line z =
     [Spec 1215 0 0 False [], Spec (2 / 5) 0 0 False [], z,
      Spec 0 0 0 False [], Spec 5 0 0 False [], Spec 13 0 0 False []]"

definition one_section :: "line_src list \<Rightarrow> chunk list" where
  "one_section ls =
     [Section_chunk \<lparr>src_sid = ''s'', src_fn = ''data'', src_a = 1000, src_b = 2000, src_p = 3,
        src_masks = [], src_resolution = Some [Spec 50 40 60 False []], src_lines = ls\<rparr>]"

text \<open>Line \<open>a\<close> takes its redshift from line \<open>b\<close>, whose redshift refers to line \<open>b\<close> itself.\<close>

definition self_reference_input :: "chunk list" where
  "self_reference_input =
     one_section
       [Line_src ''a'' (Some (doppler_line (Spec 2 1 3 True ''b''))),
        Line_src ''b'' (Some (doppler_line (Spec 2 1 3 True ''b'')))]"

text \<open>A model in which every parameter is pinned.\<close>

definition pinned_input :: "chunk list" where
  "pinned_input = one_section [Line_src ''a'' (Some (doppler_line (Spec 2 0 0 False [])))]"

text \<open>
  Line \<open>a\<close> has a free redshift with its bounds in reversed order; line \<open>b\<close> takes its
  redshift from line \<open>a\<close>.
\<close>

definition linked_input :: "chunk list" where
  "linked_input =
     one_section
       [Line_src ''a'' (Some (doppler_line (Spec 2 3 1 True []))),
        Line_src ''b'' (Some (doppler_line (Spec 2 1 3 True ''a'')))]"

text \<open>The models that \<open>get\<close> stores for \<open>pinned_input\<close> and for \<open>linked_input\<close>.\<close>

definition pinned_model :: "unit Model" where
  "pinned_model =
     \<lparr>sec = [()], isc = [0], nle = [3], nli = [1],
      val = [50, 1215, 2 / 5, 2, 0, 5, 13], err = [0, 0, 0, 0, 0, 0, 0],
      lo = [0, 0, 0, 0, 0, 0, 0], up = [0, 0, 0, 0, 0, 0, 0],
      msk = [False, False, False, False, False, False, False],
      ind = [0, 0, 0, 0, 0, 0, 0], sim = [(''s'', 0)], pim = [(''a'', 1)]\<rparr>"

definition linked_model :: "unit Model" where
  "linked_model =
     \<lparr>sec = [()], isc = [0], nle = [3], nli = [2],
      val = [50, 1215, 2 / 5, 2, 0, 5, 13, 1215, 2 / 5, 2, 0, 5, 13],
      err = [0, 0, 0, 0, 0, 0, 0, 0, 0, 0, 0, 0, 0],
      lo = [0, 0, 0, 1, 0, 0, 0, 0, 0, 1, 0, 0, 0],
      up = [0, 0, 0, 3, 0, 0, 0, 0, 0, 3, 0, 0, 0],
      msk = [False, False, False, True, False, False, False, False, False, True,
             False, False, False],
      ind = [0, 0, 0, 0, 0, 0, 0, 0, 0, 0, 0, 0, 0],
      sim = [(''s'', 0)], pim = [(''a'', 1), (''b'', 7)]\<rparr>"

subsection \<open>The parameter lines of an input, and invariants of \<open>get\<close>\<close>

text \<open>The parameter lines of an input in the order in which \<open>get\<close> reads them.\<close>

fun line_specs :: "line_src \<Rightarrow> spec list" where
  "line_specs (Line_src pid ps) = (case ps of None \<Rightarrow> [] | Some xs \<Rightarrow> xs)"

definition section_specs :: "section_src \<Rightarrow> spec list" where
  "section_specs src =
     (case src_resolution src of None \<Rightarrow> [] | Some r \<Rightarrow> r) @ concat (map line_specs (src_lines src))"

fun chunk_specs :: "chunk \<Rightarrow> spec list" where
  "chunk_specs No_begin_of_section = []"
| "chunk_specs Bad_head = []"
| "chunk_specs (Section_chunk src) = section_specs src"

definition parameter_specs :: "chunk list \<Rightarrow> spec list" where
  "parameter_specs chunks = concat (map chunk_specs chunks)"

text \<open>\<open>L'\<close> is \<open>L\<close> with the parameter lines \<open>ps\<close> appended.\<close>

definition grows :: "'s locals \<Rightarrow> spec list \<Rightarrow> 's locals \<Rightarrow> bool" where
  "grows L ps L' \<longleftrightarrow>
     l_val L' = l_val L @ map s_val ps \<and> l_lo L' = l_lo L @ map s_lo ps \<and>
     l_up L' = l_up L @ map s_up ps \<and> l_msk L' = l_msk L @ map s_msk ps \<and>
     l_ref L' = l_ref L @ map s_ref ps \<and> l_ind L' = l_ind L"

text \<open>
  While the sections are read, the parameter vectors have \<open>i\<close> entries each, and the
  indices held in \<open>sim\<close>, \<open>isc\<close> and \<open>pim\<close> point into them: the parameters of two lines
  do not overlap, and no resolution parameter lies among the parameters of a line.
\<close>

definition aligned :: "nat \<Rightarrow> 's locals \<Rightarrow> nat \<Rightarrow> bool" where
  "aligned pc L i \<longleftrightarrow>
     length (l_val L) = i \<and> length (l_lo L) = i \<and> length (l_up L) = i \<and>
     length (l_msk L) = i \<and> length (l_ref L) = i \<and>
     length (l_sec L) = length (l_isc L) \<and>
     (\<forall>(sid, v) \<in> set (l_sim L). v < length (l_isc L)) \<and>
     (\<forall>b \<in> set (l_isc L). b < i) \<and>
     (\<forall>(lid, v) \<in> set (l_pim L). v + pc \<le> i) \<and>
     (\<forall>(lid, v) \<in> set (l_pim L). \<forall>(lid', v') \<in> set (l_pim L).
        v = v' \<or> v + pc \<le> v' \<or> v' + pc \<le> v) \<and>
     (\<forall>b \<in> set (l_isc L). \<forall>(lid, v) \<in> set (l_pim L). b < v \<or> v + pc \<le> b)"

text \<open>
  The invariant of dereferencing, relative to the state \<open>L1\<close> in which it starts: the
  vectors keep their length, the maps and \<open>isc\<close> are not written, the bounds are in order,
  and a parameter without a reference is never written.
\<close>

definition deref_inv :: "nat \<Rightarrow> 's locals \<Rightarrow> 's locals \<Rightarrow> bool" where
  "deref_inv pc L1 L \<longleftrightarrow>
     length (l_val L) = length (l_ref L1) \<and> length (l_lo L) = length (l_ref L1) \<and>
     length (l_up L) = length (l_ref L1) \<and> length (l_msk L) = length (l_ref L1) \<and>
     length (l_ind L) = length (l_ref L1) \<and> length (l_ref L) = length (l_ref L1) \<and>
     l_sim L = l_sim L1 \<and> l_pim L = l_pim L1 \<and> l_isc L = l_isc L1 \<and>
     (\<forall>(sid, v) \<in> set (l_sim L1). v < length (l_isc L1)) \<and>
     (\<forall>b \<in> set (l_isc L1). b < length (l_ref L1)) \<and>
     (\<forall>(lid, v) \<in> set (l_pim L1). v + pc \<le> length (l_ref L1)) \<and>
     (\<forall>p < length (l_ref L1). l_lo L ! p \<le> l_up L ! p) \<and>
     (\<forall>p < length (l_ref L1). l_ref L1 ! p = [] \<longrightarrow>
        l_ref L ! p = [] \<and> l_lo L ! p = l_lo L1 ! p \<and> l_up L ! p = l_up L1 ! p)"

text \<open>
  What the indexing loop, entered at index \<open>i\<close> in state \<open>L\<close>, has done when it leaves
  state \<open>L'\<close>: it has written \<open>lo\<close>, \<open>up\<close> and \<open>ind\<close> only, nothing below \<open>i\<close>, and from \<open>i\<close> on
  the bounds are the given ones put in order for a parameter that is free and not linked,
  and are zero for a parameter that is pinned or linked.
\<close>

definition indexed :: "nat \<Rightarrow> 's locals \<Rightarrow> 's locals \<Rightarrow> bool" where
  "indexed i L L' \<longleftrightarrow>
     l_sec L' = l_sec L \<and> l_isc L' = l_isc L \<and> l_val L' = l_val L \<and> l_msk L' = l_msk L \<and>
     l_ref L' = l_ref L \<and> l_pim L' = l_pim L \<and> l_sim L' = l_sim L \<and>
     length (l_lo L') = length (l_msk L) \<and> length (l_up L') = length (l_msk L) \<and>
     length (l_ind L') = length (l_msk L) \<and>
     (\<forall>p < i. l_lo L' ! p = l_lo L ! p \<and> l_up L' ! p = l_up L ! p) \<and>
     (\<forall>p. i \<le> p \<and> p < length (l_msk L) \<longrightarrow>
        l_lo L' ! p \<le> l_up L' ! p \<and>
        (l_msk L ! p \<and> l_ref L ! p = [] \<longrightarrow>
           l_lo L' ! p = min (l_lo L ! p) (l_up L ! p) \<and>
           l_up L' ! p = max (l_lo L ! p) (l_up L ! p)) \<and>
        (\<not> (l_msk L ! p \<and> l_ref L ! p = []) \<longrightarrow> l_lo L' ! p = 0 \<and> l_up L' ! p = 0))"

subsection \<open>References and the parameters they end in\<close>

text \<open>The entries of parameter \<open>p\<close>: \<open>val[p]\<close>, \<open>lo[p]\<close>, \<open>up[p]\<close>, \<open>msk[p]\<close> and \<open>ind[p]\<close>.\<close>

definition parameter :: "'s locals \<Rightarrow> nat \<Rightarrow> real \<times> real \<times> real \<times> bool \<times> nat" where
  "parameter L p = (l_val L ! p, l_lo L ! p, l_up L ! p, l_msk L ! p, l_ind L ! p)"

definition model_parameter :: "'s Model \<Rightarrow> nat \<Rightarrow> real \<times> real \<times> real \<times> bool \<times> nat" where
  "model_parameter m p = (val m ! p, lo m ! p, up m ! p, msk m ! p, ind m ! p)"

text \<open>
  The index that a reference \<open>r\<close> names: \<open>isc[sim[r]]\<close> when a resolution parameter refers to
  \<open>r\<close>, and \<open>pim[r] + j\<close> when parameter \<open>j\<close> of a line does (\<open>None\<close>: \<open>find\<close> returns \<open>end()\<close>).
\<close>

definition section_link :: "(string \<times> nat) list \<Rightarrow> nat list \<Rightarrow> string \<Rightarrow> nat option" where
  "section_link sim_map isc_list r = map_option (\<lambda>v. isc_list ! v) (map_of sim_map r)"

definition line_link :: "(string \<times> nat) list \<Rightarrow> nat \<Rightarrow> string \<Rightarrow> nat option" where
  "line_link pim_map j r = map_option (\<lambda>v. v + j) (map_of pim_map r)"

text \<open>
  \<open>resolves link refs k t\<close>: following the references of the input from parameter \<open>k\<close> ends
  in parameter \<open>t\<close>, which has no reference. A parameter without a reference ends in
  itself.
\<close>

inductive resolves :: "(string \<Rightarrow> nat option) \<Rightarrow> string list \<Rightarrow> nat \<Rightarrow> nat \<Rightarrow> bool"
  for link :: "string \<Rightarrow> nat option" and refs :: "string list" where
  unlinked: "refs ! k = [] \<Longrightarrow> resolves link refs k k"
| linked: "refs ! k \<noteq> [] \<Longrightarrow> link (refs ! k) = Some l \<Longrightarrow> resolves link refs l t \<Longrightarrow>
     resolves link refs k t"

text \<open>The resolution parameters, and the parameters \<open>j\<close> of the lines.\<close>

definition resolution_parameters :: "'s locals \<Rightarrow> nat set" where
  "resolution_parameters L = {l_isc L ! v | sid v. (sid, v) \<in> set (l_sim L)}"

definition line_parameters :: "'s locals \<Rightarrow> nat \<Rightarrow> nat set" where
  "line_parameters L j = {v + j | lid v. (lid, v) \<in> set (l_pim L)}"

text \<open>
  The invariant of dereferencing for the parameters \<open>K\<close> that refer to each other through
  \<open>link\<close>: a parameter whose reference has been cleared holds the entries that the parameter
  at the end of its references had when dereferencing started (in \<open>L1\<close>), and a reference
  that has been replaced ends where the reference of the input ends.
\<close>

definition links_inv :: "(string \<Rightarrow> nat option) \<Rightarrow> nat set \<Rightarrow> 's locals \<Rightarrow> 's locals \<Rightarrow> bool" where
  "links_inv link K L1 L \<longleftrightarrow>
     (\<forall>p \<in> K.
        (l_ref L ! p = [] \<longrightarrow>
           (\<exists>t. resolves link (l_ref L1) p t \<and> parameter L p = parameter L1 t)) \<and>
        (l_ref L ! p \<noteq> [] \<longrightarrow>
           (\<forall>l t. link (l_ref L ! p) = Some l \<longrightarrow> resolves link (l_ref L1) l t \<longrightarrow>
                  resolves link (l_ref L1) p t)))"

definition links_hold :: "nat \<Rightarrow> 's locals \<Rightarrow> 's locals \<Rightarrow> bool" where
  "links_hold pc L1 L \<longleftrightarrow>
     deref_inv pc L1 L \<and>
     (\<forall>p < length (l_ref L1). l_ref L1 ! p = [] \<longrightarrow> parameter L p = parameter L1 p) \<and>
     links_inv (section_link (l_sim L1) (l_isc L1)) (resolution_parameters L1) L1 L \<and>
     (\<forall>j < pc. links_inv (line_link (l_pim L1) j) (line_parameters L1 j) L1 L)"

text \<open>A reference that is empty in \<open>L\<close> is empty in \<open>L'\<close>.\<close>

definition cleared :: "'s locals \<Rightarrow> 's locals \<Rightarrow> bool" where
  "cleared L L' \<longleftrightarrow> (\<forall>p. l_ref L ! p = [] \<longrightarrow> l_ref L' ! p = [])"

section \<open>The Mersenne twister (random.h, mtwister.h)\<close>

text \<open>
  \<open>word64\<close> is a 64-bit unsigned integer and \<open>natural\<close> an unsigned index. The template
  parameters of \<open>Mersenne_Twister\<close> are the fields of a record; \<open>mt_w\<close> stands for \<open>w\<close>,
  \<open>mt_n\<close> for \<open>n\<close>, and so on.
\<close>

type_synonym word64 = "64 word"

record mt_params =
  mt_w :: nat
  mt_n :: nat
  mt_m :: nat
  mt_r :: nat
  mt_a :: word64
  mt_u :: nat
  mt_d :: word64
  mt_s :: nat
  mt_b :: word64
  mt_t :: nat
  mt_c :: word64
  mt_l :: nat
  mult1 :: word64
  mult2 :: word64
  mult3 :: word64

text \<open>The typedef \<open>Mt19937_32\<close>.\<close>

definition Mt19937_32 :: mt_params where
  "Mt19937_32 =
     \<lparr>mt_w = 32, mt_n = 624, mt_m = 397, mt_r = 31, mt_a = 0x9908B0DF, mt_u = 11,
      mt_d = 0xFFFFFFFF, mt_s = 7, mt_b = 0x9D2C5680, mt_t = 15, mt_c = 0xEFC60000, mt_l = 18,
      mult1 = 1812433253, mult2 = 1664525, mult3 = 1566083941\<rparr>"

text \<open>The mutable members \<open>state\<close> and \<open>index\<close>.\<close>

record Mersenne_Twister =
  state :: "word64 list"
  index :: nat

text \<open>\<open>numeric_limits<word64>::max() >> (numeric_limits<word64>::digits - w)\<close>.\<close>

definition word_mask :: "mt_params \<Rightarrow> word64" where
  "word_mask p = drop_bit (64 - mt_w p) (- 1)"

text \<open>\<open>twist(i, j, k)\<close>.\<close>

definition twisted :: "mt_params \<Rightarrow> word64 \<Rightarrow> word64 \<Rightarrow> word64 \<Rightarrow> word64" where
  "twisted p xi xj xk =
     xi XOR drop_bit 1
       ((xj AND drop_bit (64 - mt_w p) (push_bit (64 - mt_w p + mt_r p) (- 1))) OR
        (xk AND drop_bit (64 - mt_r p) (- 1)))"

definition twist :: "mt_params \<Rightarrow> nat \<Rightarrow> nat \<Rightarrow> nat \<Rightarrow> word64 list \<Rightarrow> word64 list" where
  "twist p i j k st =
     (let st' = st[j := twisted p (st ! i) (st ! j) (st ! k)]
      in if st' ! k AND 1 = 1 then st'[j := st' ! j XOR mt_a p] else st')"

text \<open>The two loops of \<open>rand\<close> that regenerate the state.\<close>

function twist_loop1 :: "mt_params \<Rightarrow> word64 list \<Rightarrow> nat \<Rightarrow> word64 list" where
  "twist_loop1 p st k =
     (if k < mt_n p - mt_m p
      then twist_loop1 p (twist p (k + mt_m p) k (k + 1) st) (k + 1)
      else st)"
  by pat_completeness auto
termination
  by (relation "measure (\<lambda>(p, st, k). mt_n p - mt_m p - k)") auto

declare twist_loop1.simps [simp del]

function twist_loop2 :: "mt_params \<Rightarrow> word64 list \<Rightarrow> nat \<Rightarrow> word64 list" where
  "twist_loop2 p st k =
     (if k < mt_n p - 1
      then twist_loop2 p (twist p (k + mt_m p - mt_n p) k (k + 1) st) (k + 1)
      else st)"
  by pat_completeness auto
termination
  by (relation "measure (\<lambda>(p, st, k). mt_n p - 1 - k)") auto

declare twist_loop2.simps [simp del]

definition regenerate :: "mt_params \<Rightarrow> word64 list \<Rightarrow> word64 list" where
  "regenerate p st =
     twist p (mt_m p - 1) (mt_n p - 1) 0
       (twist_loop2 p (twist_loop1 p st 0) (mt_n p - mt_m p))"

text \<open>The tempering at the end of \<open>rand\<close>.\<close>

definition temper :: "mt_params \<Rightarrow> word64 \<Rightarrow> word64" where
  "temper p x =
     (let x1 = x XOR (drop_bit (mt_u p) x AND mt_d p);
          x2 = x1 XOR (push_bit (mt_s p) x1 AND mt_b p);
          x3 = x2 XOR (push_bit (mt_t p) x2 AND mt_c p)
      in x3 XOR drop_bit (mt_l p) x3)"

text \<open>\<open>rand()\<close>: the random word and the generator it leaves behind.\<close>

definition rand :: "mt_params \<Rightarrow> Mersenne_Twister \<Rightarrow> word64 \<times> Mersenne_Twister" where
  "rand p g =
     (let g' = (if index g = mt_n p then \<lparr>state = regenerate p (state g), index = 0\<rparr> else g)
      in (temper p (state g' ! index g'), g'\<lparr>index := index g' + 1\<rparr>))"

text \<open>
  \<open>operator()()\<close>: the random word, shifted down to the mantissa if \<open>w\<close> exceeds it, times
  \<open>1.0 / max_mantissa\<close>. \<open>numeric_limits<real>::digits\<close> is 53; the product is read as a
  real number.
\<close>

definition max_mantissa :: "mt_params \<Rightarrow> word64" where
  "max_mantissa p = drop_bit (64 - (if mt_w p < 53 then mt_w p else 53)) (- 1)"

definition deviate :: "mt_params \<Rightarrow> Mersenne_Twister \<Rightarrow> real \<times> Mersenne_Twister" where
  "deviate p g =
     (case rand p g of
        (x, g') \<Rightarrow>
          (real (unat (if mt_w p < 53 then x else drop_bit (mt_w p - 53) x)) *
             (1 / real (unat (max_mantissa p))), g'))"

text \<open>\<open>reset(seed)\<close>: the expansion of a single seed.\<close>

definition expand :: "mt_params \<Rightarrow> word64 \<Rightarrow> nat \<Rightarrow> word64" where
  "expand p x k = ((x XOR drop_bit (mt_w p - 2) x) * mult1 p + of_nat k) AND word_mask p"

function reset_loop :: "mt_params \<Rightarrow> word64 list \<Rightarrow> nat \<Rightarrow> word64 list" where
  "reset_loop p st k =
     (if k < mt_n p
      then reset_loop p (st[k := expand p (st ! (k - 1)) k]) (k + 1)
      else st)"
  by pat_completeness auto
termination
  by (relation "measure (\<lambda>(p, st, k). mt_n p - k)") auto

declare reset_loop.simps [simp del]

definition reset :: "mt_params \<Rightarrow> word64 \<Rightarrow> Mersenne_Twister \<Rightarrow> Mersenne_Twister" where
  "reset p seed g =
     \<lparr>state = reset_loop p ((state g)[0 := seed AND word_mask p]) 1, index = mt_n p\<rparr>"

text \<open>
  \<open>reset(seed_count, seeds)\<close>: the two mixing loops. Each loop counts \<open>k\<close> down; its state
  is the array, \<open>i\<close> and (in the first loop) \<open>j\<close>.
\<close>

definition mix1 :: "mt_params \<Rightarrow> word64 \<Rightarrow> word64 \<Rightarrow> word64 \<Rightarrow> nat \<Rightarrow> word64" where
  "mix1 p x prev seed j =
     ((x XOR ((prev XOR drop_bit (mt_w p - 2) prev) * mult2 p)) + seed + of_nat j) AND word_mask p"

definition mix2 :: "mt_params \<Rightarrow> word64 \<Rightarrow> word64 \<Rightarrow> nat \<Rightarrow> word64" where
  "mix2 p x prev i =
     ((x XOR ((prev XOR drop_bit (mt_w p - 2) prev) * mult3 p)) - of_nat i) AND word_mask p"

definition seeds_step1 ::
  "mt_params \<Rightarrow> nat \<Rightarrow> word64 list \<Rightarrow> word64 list \<times> nat \<times> nat \<Rightarrow> word64 list \<times> nat \<times> nat" where
  "seeds_step1 p seed_count seeds s =
     (case s of
        (st, i, j) \<Rightarrow>
          (let st1 = st[i := mix1 p (st ! i) (st ! (i - 1)) (seeds ! j) j]
           in (if i + 1 \<ge> mt_n p then st1[0 := st1 ! (mt_n p - 1)] else st1,
               if i + 1 \<ge> mt_n p then 1 else i + 1,
               if j + 1 \<ge> seed_count then 0 else j + 1)))"

fun seeds_loop1 ::
  "mt_params \<Rightarrow> nat \<Rightarrow> word64 list \<Rightarrow> nat \<Rightarrow> word64 list \<times> nat \<times> nat \<Rightarrow> word64 list \<times> nat \<times> nat" where
  "seeds_loop1 p seed_count seeds 0 s = s"
| "seeds_loop1 p seed_count seeds (Suc k) s =
     seeds_loop1 p seed_count seeds k (seeds_step1 p seed_count seeds s)"

definition seeds_step2 :: "mt_params \<Rightarrow> word64 list \<times> nat \<Rightarrow> word64 list \<times> nat" where
  "seeds_step2 p s =
     (case s of
        (st, i) \<Rightarrow>
          (let st1 = st[i := mix2 p (st ! i) (st ! (i - 1)) i]
           in (if i + 1 \<ge> mt_n p then st1[0 := st1 ! (mt_n p - 1)] else st1,
               if i + 1 \<ge> mt_n p then 1 else i + 1)))"

fun seeds_loop2 :: "mt_params \<Rightarrow> nat \<Rightarrow> word64 list \<times> nat \<Rightarrow> word64 list \<times> nat" where
  "seeds_loop2 p 0 s = s"
| "seeds_loop2 p (Suc k) s = seeds_loop2 p k (seeds_step2 p s)"

definition reset_seeds ::
  "mt_params \<Rightarrow> nat \<Rightarrow> word64 list \<Rightarrow> Mersenne_Twister \<Rightarrow> Mersenne_Twister" where
  "reset_seeds p seed_count seeds g =
     (case seeds_loop1 p seed_count seeds (max (mt_n p) seed_count)
             (state (reset p 19650218 g), 1, 0) of
        (st1, i, j) \<Rightarrow>
          (case seeds_loop2 p (mt_n p - 1) (st1, i) of
             (st2, i') \<Rightarrow> \<lparr>state = st2[0 := push_bit (mt_w p - 1) 1], index = mt_n p\<rparr>))"

text \<open>
  The constructor from a single seed: the low and the high half of the seed are the two
  seeds of the array reset. \<open>state(n)\<close> is an array of \<open>n\<close> zeros.
\<close>

definition Mersenne_Twister :: "mt_params \<Rightarrow> word64 \<Rightarrow> Mersenne_Twister" where
  "Mersenne_Twister p seed =
     reset_seeds p 2 [seed AND 0x00000000FFFFFFFF, seed AND 0xFFFFFFFF00000000]
       \<lparr>state = replicate (mt_n p) 0, index = 0\<rparr>"

text \<open>The constructor from an array of seeds.\<close>

definition Mersenne_Twister_seeds :: "mt_params \<Rightarrow> nat \<Rightarrow> word64 list \<Rightarrow> Mersenne_Twister" where
  "Mersenne_Twister_seeds p seed_count seeds =
     reset_seeds p seed_count seeds \<lparr>state = replicate (mt_n p) 0, index = 0\<rparr>"

text \<open>
  The class \<open>especia::mersenne_twister\<close> of mtwister.h, an earlier form of the same generator.
  It has the template parameters of \<open>Mersenne_Twister\<close> without \<open>d\<close> and the multipliers
  (the record fields \<open>mt_d\<close>, \<open>mult1\<close>, \<open>mult2\<close>, \<open>mult3\<close> are not read), its words are
  \<open>unsigned long\<close> (read as 64 bits wide), and its \<open>twist\<close> and the loops of its \<open>rand\<close> are
  those above. Its constructor resets from a single seed with a multiplier:
  \<open>mersenne_twister(seed = 5489, multiplier = 1812433253)\<close>.
\<close>

definition mtwister_expand :: "mt_params \<Rightarrow> word64 \<Rightarrow> word64 \<Rightarrow> nat \<Rightarrow> word64" where
  "mtwister_expand p multiplier x k =
     (multiplier * (x XOR drop_bit (mt_r p - 1) x) + of_nat k) AND word_mask p"

function mtwister_reset_loop :: "mt_params \<Rightarrow> word64 \<Rightarrow> word64 list \<Rightarrow> nat \<Rightarrow> word64 list" where
  "mtwister_reset_loop p multiplier st k =
     (if k < mt_n p
      then mtwister_reset_loop p multiplier (st[k := mtwister_expand p multiplier (st ! (k - 1)) k]) (k + 1)
      else st)"
  by pat_completeness auto
termination
  by (relation "measure (\<lambda>(p, multiplier, st, k). mt_n p - k)") auto

declare mtwister_reset_loop.simps [simp del]

definition mtwister_reset ::
  "mt_params \<Rightarrow> word64 \<Rightarrow> word64 \<Rightarrow> Mersenne_Twister \<Rightarrow> Mersenne_Twister" where
  "mtwister_reset p seed multiplier g =
     \<lparr>state = mtwister_reset_loop p multiplier ((state g)[0 := seed AND word_mask p]) 1,
      index = mt_n p\<rparr>"

definition mersenne_twister :: "mt_params \<Rightarrow> word64 \<Rightarrow> word64 \<Rightarrow> Mersenne_Twister" where
  "mersenne_twister p seed multiplier =
     mtwister_reset p seed multiplier \<lparr>state = replicate (mt_n p) 0, index = 0\<rparr>"

definition mtwister_temper :: "mt_params \<Rightarrow> word64 \<Rightarrow> word64" where
  "mtwister_temper p x =
     (let x1 = (if mt_u p > 0 then x XOR drop_bit (mt_u p) x else x);
          x2 = x1 XOR (push_bit (mt_s p) x1 AND mt_b p);
          x3 = x2 XOR (push_bit (mt_t p) x2 AND mt_c p)
      in x3 XOR drop_bit (mt_l p) x3)"

definition mtwister_rand :: "mt_params \<Rightarrow> Mersenne_Twister \<Rightarrow> word64 \<times> Mersenne_Twister" where
  "mtwister_rand p g =
     (let g' = (if index g = mt_n p then \<lparr>state = regenerate p (state g), index = 0\<rparr> else g)
      in (mtwister_temper p (state g' ! index g'), g'\<lparr>index := index g' + 1\<rparr>))"

text \<open>
  The typedef \<open>mt19937\<close> of mtwister.h,
  \<open>mersenne_twister<32, 624, 397, 31, 0x9908b0df, 11, 7, 0x9d2c5680, 15, 0xefc60000, 18>\<close>.
\<close>

definition mt19937 :: mt_params where
  "mt19937 =
     \<lparr>mt_w = 32, mt_n = 624, mt_m = 397, mt_r = 31, mt_a = 0x9908B0DF, mt_u = 11,
      mt_d = 0, mt_s = 7, mt_b = 0x9D2C5680, mt_t = 15, mt_c = 0xEFC60000, mt_l = 18,
      mult1 = 0, mult2 = 0, mult3 = 0\<rparr>"

text \<open>Successive calls of \<open>rand()\<close>: the words drawn, first one first.\<close>

fun rands :: "mt_params \<Rightarrow> nat \<Rightarrow> Mersenne_Twister \<Rightarrow> word64 list" where
  "rands p 0 g = []"
| "rands p (Suc k) g = (case rand p g of (x, g') \<Rightarrow> x # rands p k g')"

fun mtwister_rands :: "mt_params \<Rightarrow> nat \<Rightarrow> Mersenne_Twister \<Rightarrow> word64 list" where
  "mtwister_rands p 0 g = []"
| "mtwister_rands p (Suc k) g = (case mtwister_rand p g of (x, g') \<Rightarrow> x # mtwister_rands p k g')"

subsection \<open>The words of the state, one at a time\<close>

text \<open>
  The loops above run over the whole array. The functions below give single words of their
  results by recursion on the index; the theorems of the last section relate the two.
\<close>

text \<open>Word \<open>k\<close> of the state after \<open>reset(seed)\<close>.\<close>

fun expansion :: "mt_params \<Rightarrow> word64 \<Rightarrow> nat \<Rightarrow> word64" where
  "expansion p seed 0 = seed AND word_mask p"
| "expansion p seed (Suc k) = expand p (expansion p seed k) (Suc k)"

fun mtwister_expansion :: "mt_params \<Rightarrow> word64 \<Rightarrow> word64 \<Rightarrow> nat \<Rightarrow> word64" where
  "mtwister_expansion p multiplier seed 0 = seed AND word_mask p"
| "mtwister_expansion p multiplier seed (Suc k) =
     mtwister_expand p multiplier (mtwister_expansion p multiplier seed k) (Suc k)"

text \<open>The word that \<open>twist(i, j, k)\<close> stores in \<open>state[j]\<close>.\<close>

definition twist_word :: "mt_params \<Rightarrow> word64 \<Rightarrow> word64 \<Rightarrow> word64 \<Rightarrow> word64" where
  "twist_word p xi xj xk =
     (if xk AND 1 = 1 then twisted p xi xj xk XOR mt_a p else twisted p xi xj xk)"

text \<open>
  The first mixing loop of \<open>reset(seed_count, seeds)\<close> writes \<open>mixed1 x\<close> to \<open>state[x]\<close> on
  its first pass over the array, for \<open>x \<ge> 1\<close>.
\<close>

fun mixed1 :: "mt_params \<Rightarrow> nat \<Rightarrow> word64 list \<Rightarrow> nat \<Rightarrow> word64" where
  "mixed1 p seed_count seeds 0 = expansion p 19650218 0"
| "mixed1 p seed_count seeds (Suc x) =
     mix1 p (expansion p 19650218 (Suc x)) (mixed1 p seed_count seeds x)
       (seeds ! (x mod seed_count)) (x mod seed_count)"

text \<open>The word that the last iteration of the first loop writes to \<open>state[1]\<close>.\<close>

definition mixed1_last :: "mt_params \<Rightarrow> nat \<Rightarrow> word64 list \<Rightarrow> word64" where
  "mixed1_last p seed_count seeds =
     mix1 p (mixed1 p seed_count seeds 1) (mixed1 p seed_count seeds (mt_n p - 1))
       (seeds ! ((mt_n p - 1) mod seed_count)) ((mt_n p - 1) mod seed_count)"

text \<open>The second mixing loop writes \<open>mixed2 x\<close> to \<open>state[x]\<close> for \<open>x \<ge> 2\<close>.\<close>

fun mixed2 :: "mt_params \<Rightarrow> nat \<Rightarrow> word64 list \<Rightarrow> nat \<Rightarrow> word64" where
  "mixed2 p seed_count seeds 0 = mixed1_last p seed_count seeds"
| "mixed2 p seed_count seeds (Suc x) =
     (if x = 0 then mixed1_last p seed_count seeds
      else mix2 p (mixed1 p seed_count seeds (Suc x)) (mixed2 p seed_count seeds x) (Suc x))"

text \<open>Word \<open>x\<close> of the state after \<open>reset(seed_count, seeds)\<close>.\<close>

definition seeded :: "mt_params \<Rightarrow> nat \<Rightarrow> word64 list \<Rightarrow> nat \<Rightarrow> word64" where
  "seeded p seed_count seeds x =
     (if x = 0 then push_bit (mt_w p - 1) 1
      else if x = 1
      then mix2 p (mixed1_last p seed_count seeds) (mixed2 p seed_count seeds (mt_n p - 1)) 1
      else mixed2 p seed_count seeds x)"


text \<open>
  The words of one index, side by side: each is made from the words of the index before.
\<close>

definition mixing1 :: "mt_params \<Rightarrow> nat \<Rightarrow> word64 list \<Rightarrow> nat \<Rightarrow> word64 \<times> word64" where
  "mixing1 p seed_count seeds x = (expansion p 19650218 x, mixed1 p seed_count seeds x)"

definition mixing2 ::
  "mt_params \<Rightarrow> nat \<Rightarrow> word64 list \<Rightarrow> nat \<Rightarrow> word64 \<times> word64 \<times> word64" where
  "mixing2 p seed_count seeds x =
     (expansion p 19650218 x, mixed1 p seed_count seeds x, mixed2 p seed_count seeds x)"


text \<open>
  The first ten numbers of the published reference sequence of MT19937 for the seed 5489.
\<close>

definition spec_reference_numbers :: "word64 list" where
  "spec_reference_numbers =
     [3499211612, 581869302, 3890346734, 3586334585, 545404204,
      4161255391, 3922919429, 949333985, 2715962298, 1323567403]"

subsection \<open>Sequences of calls\<close>

text \<open>
  A generator is called through \<open>rand()\<close> or through \<open>operator()()\<close>. Both read and write
  only the members \<open>state\<close> and \<open>index\<close> of the instance they are called on.
\<close>

datatype call = Call_rand | Call_operator

datatype draw = Random_word word64 | Random_real real

definition call :: "mt_params \<Rightarrow> call \<Rightarrow> Mersenne_Twister \<Rightarrow> draw \<times> Mersenne_Twister" where
  "call p c g =
     (case c of
        Call_rand \<Rightarrow> (case rand p g of (x, g') \<Rightarrow> (Random_word x, g'))
      | Call_operator \<Rightarrow> (case deviate p g of (x, g') \<Rightarrow> (Random_real x, g')))"

text \<open>The outputs of a sequence of calls on one instance, first one first.\<close>

fun calls :: "mt_params \<Rightarrow> call list \<Rightarrow> Mersenne_Twister \<Rightarrow> draw list" where
  "calls p [] g = []"
| "calls p (c # cs) g = (case call p c g of (y, g') \<Rightarrow> y # calls p cs g')"

text \<open>
  A program with two instances: each call names the instance it is made on. The result is
  the outputs of the first and those of the second instance.
\<close>

datatype object = First | Second

fun interleaved ::
  "mt_params \<Rightarrow> (object \<times> call) list \<Rightarrow> Mersenne_Twister \<times> Mersenne_Twister \<Rightarrow>
   draw list \<times> draw list" where
  "interleaved p [] gs = ([], [])"
| "interleaved p ((First, c) # s) gs =
     (case call p c (fst gs) of
        (y, g') \<Rightarrow> (case interleaved p s (g', snd gs) of (ys1, ys2) \<Rightarrow> (y # ys1, ys2)))"
| "interleaved p ((Second, c) # s) gs =
     (case call p c (snd gs) of
        (y, g') \<Rightarrow> (case interleaved p s (fst gs, g') of (ys1, ys2) \<Rightarrow> (ys1, y # ys2)))"

text \<open>The calls that a program makes on one of the instances.\<close>

fun calls_of :: "object \<Rightarrow> (object \<times> call) list \<Rightarrow> call list" where
  "calls_of i [] = []"
| "calls_of i ((j, c) # s) = (if j = i then c # calls_of i s else calls_of i s)"


subsection \<open>The reference generator\<close>

text \<open>
  The generator MT19937 as Matsumoto and Nishimura publish it, for a machine whose
  \<open>unsigned long\<close> has 64 bits. The state is initialised from a single seed by Knuth's
  linear congruential generator with the multiplier 1812433253, and continued by the
  recurrence \<open>x[i + 624] = x[i + 397] ^ (y >> 1) ^ (y odd ? 0x9908b0df : 0)\<close> with
  \<open>y = (x[i] & 0x80000000) | (x[i + 1] & 0x7fffffff)\<close>; output \<open>t\<close> is the tempered word
  \<open>x[t + 624]\<close>. These definitions follow the publication, not the code.
\<close>

function spec_mt19937_word :: "word64 \<Rightarrow> nat \<Rightarrow> word64" where
  "spec_mt19937_word seed i =
     (if i = 0 then seed AND 0xFFFFFFFF
      else if i < 624
      then (1812433253 *
              (spec_mt19937_word seed (i - 1) XOR drop_bit 30 (spec_mt19937_word seed (i - 1))) +
            of_nat i) AND 0xFFFFFFFF
      else spec_mt19937_word seed (i - 227) XOR
           (drop_bit 1
              ((spec_mt19937_word seed (i - 624) AND 0x80000000) OR
               (spec_mt19937_word seed (i - 623) AND 0x7FFFFFFF)) XOR
            (if ((spec_mt19937_word seed (i - 624) AND 0x80000000) OR
                 (spec_mt19937_word seed (i - 623) AND 0x7FFFFFFF)) AND 1 = 1
             then 0x9908B0DF else 0)))"
  by pat_completeness auto
termination
  by (relation "measure snd") auto

declare spec_mt19937_word.simps [simp del]

definition spec_mt19937_output :: "word64 \<Rightarrow> nat \<Rightarrow> word64" where
  "spec_mt19937_output seed t =
     (let y0 = spec_mt19937_word seed (t + 624);
          y1 = y0 XOR drop_bit 11 y0;
          y2 = y1 XOR (push_bit 7 y1 AND 0x9D2C5680);
          y3 = y2 XOR (push_bit 15 y2 AND 0xEFC60000)
      in y3 XOR drop_bit 18 y3)"

text \<open>
  A state that is being regenerated in place: the words below \<open>k\<close> are those of the next
  block of the sequence \<open>X\<close>, the others those of the block that starts at \<open>base\<close>.
\<close>

definition mixed :: "mt_params \<Rightarrow> (nat \<Rightarrow> word64) \<Rightarrow> nat \<Rightarrow> nat \<Rightarrow> word64 list \<Rightarrow> bool" where
  "mixed p X base k st \<longleftrightarrow>
     length st = mt_n p \<and>
     (\<forall>x < mt_n p. st ! x = (if x < k then X (base + mt_n p + x) else X (base + x)))"

section \<open>Properties of the profile functions\<close>

text \<open>The largest finite number lies between \<open>2^1023\<close> and \<open>2^1024\<close>.\<close>

lemma below_two_powers:
  "(2::real) ^ n \<le> (2 - 1 / 2 ^ 52) * 2 ^ n" "(2 - 1 / 2 ^ 52) * 2 ^ n < (2::real) ^ Suc n"
proof -
  have "1 * (2::real) ^ n \<le> (2 - 1 / 2 ^ 52) * 2 ^ n"
    by (rule mult_right_mono) simp_all
  then show "(2::real) ^ n \<le> (2 - 1 / 2 ^ 52) * 2 ^ n" by simp
  have "(2 - 1 / 2 ^ 52) * 2 ^ n < 2 * (2::real) ^ n"
    by (rule mult_strict_right_mono) simp_all
  then show "(2 - 1 / 2 ^ 52) * 2 ^ n < (2::real) ^ Suc n" by simp
qed

lemma max_double_between: "2 ^ 1023 \<le> max_double" "max_double < 2 ^ Suc 1023"
  unfolding max_double_def by (rule below_two_powers)+

lemma max_double_positive: "0 < max_double"
proof -
  have "(0::real) < 2 ^ 1023" by (rule zero_less_power) simp
  from this max_double_between(1) show ?thesis by (rule less_le_trans)
qed

lemma d_less_eq_not_less: "d_less_eq a b \<Longrightarrow> \<not> d_less b a"
  by (auto simp: d_less_def d_less_eq_def is_finite_def is_infinite_def is_nan_def)

lemma truncate_outside: "\<not> d_less (d_abs x) (d_times c b) \<Longrightarrow> truncate_f f x b c = Finite 0"
  by (simp add: truncate_f_def)


lemma times_zero_not_finite:
  assumes "\<not> is_finite a"
  shows "d_times a (Finite 0) = NaN"
  using assms
  by (auto simp: d_times_def is_finite_def is_nan_def is_infinite_def is_zero_def)

lemma rounded_finite:
  assumes "r \<noteq> 0" and "\<bar>r\<bar> \<le> max_double"
  shows "rounded s r = Finite r"
  using assms by (simp add: rounded_def)

lemma literal_finite:
  assumes "\<bar>r\<bar> \<le> max_double"
  shows "literal r = Finite r"
  using assms by (simp add: literal_def rounded_def zero_def)

lemma max_double_bound: "2 ^ 100 \<le> max_double"
proof -
  have "(2::real) ^ 100 \<le> 2 ^ 1023" by (rule power_increasing) simp_all
  with max_double_between(1) show ?thesis by (rule order_trans [rotated])
qed

lemma literal_small:
  assumes "\<bar>r\<bar> \<le> 2 ^ 100"
  shows "literal r = Finite r"
  using assms max_double_bound by (intro literal_finite) simp

lemma rounded_small:
  assumes "r \<noteq> 0" and "\<bar>r\<bar> \<le> 2 ^ 100"
  shows "rounded s r = Finite r"
  using assms max_double_bound by (intro rounded_finite) simp_all

lemma d_times_finite:
  assumes "x * y \<noteq> 0" and "\<bar>x * y\<bar> \<le> 2 ^ 100"
  shows "d_times (Finite x) (Finite y) = Finite (x * y)"
proof -
  from assms(2) max_double_bound have "\<bar>x * y\<bar> \<le> max_double" by simp
  with assms(1) show ?thesis
    by (simp add: d_times_def is_nan_def is_infinite_def rounded_def)
qed

lemma d_divide_finite:
  assumes "x \<noteq> 0" and "y \<noteq> 0" and "\<bar>x / y\<bar> \<le> 2 ^ 100"
  shows "d_divide (Finite x) (Finite y) = Finite (x / y)"
proof -
  from assms(3) max_double_bound have "\<bar>x / y\<bar> \<le> max_double" by simp
  with assms(1,2) show ?thesis
    by (simp add: d_divide_def is_nan_def is_infinite_def is_zero_def rounded_def)
qed

lemma d_divide_zero:
  assumes "0 < y"
  shows "d_divide (Finite 0) (Finite y) = Finite 0"
  using assms max_double_positive
  by (simp add: d_divide_def is_nan_def is_infinite_def is_zero_def zero_def rounded_def)

lemma d_plus_finite:
  assumes "x + y \<noteq> 0" and "\<bar>x + y\<bar> \<le> 2 ^ 100"
  shows "d_plus (Finite x) (Finite y) = Finite (x + y)"
proof -
  from assms(2) max_double_bound have "\<bar>x + y\<bar> \<le> max_double" by simp
  with assms(1) show ?thesis
    by (auto simp: d_plus_def is_nan_def is_infinite_def is_zero_def rounded_def)
qed

lemma d_sqr_finite:
  assumes "x \<noteq> 0" and "\<bar>x * x\<bar> \<le> 2 ^ 100"
  shows "d_sqr (Finite x) = Finite (x * x)"
  using assms by (simp add: d_sqr_def d_equal_def is_nan_def is_zero_def d_times_finite)

lemmas finite_arithmetic =
  literal_small rounded_small d_times_finite d_divide_finite d_divide_zero d_plus_finite d_sqr_finite

lemma pow_10_overflow: "pow_10 (Finite 400) = Plus_infinity"
proof -
  have "(2::real) ^ (64 * 16) \<le> 10 ^ (25 * 16)"
    unfolding power_mult by (rule power_mono) simp_all
  moreover have "Suc 1023 = 64 * 16" and "(400::nat) = 25 * 16" by simp_all
  ultimately have "(2::real) ^ Suc 1023 \<le> 10 ^ 400" by (simp only:)
  with max_double_between(2) have "max_double < (10::real) ^ 400" by (rule less_le_trans)
  moreover have "(10::real) powr 400 = 10 ^ 400" by (rule powr_numeral) simp
  moreover have "\<bar>(10::real) ^ 400\<bar> = 10 ^ 400" by (rule abs_of_nonneg) (rule zero_le_power, simp)
  ultimately have "\<bar>10 powr (400::real)\<bar> > max_double" by (simp only:)
  then show ?thesis
    unfolding pow_10.simps rounded_def infinity_def by (simp only: if_True if_False)
qed

lemma pow_10_finite:
  assumes "10 powr r \<le> 2 ^ 100"
  shows "pow_10 (Finite r) = Finite (10 powr r)"
proof -
  from assms max_double_bound have "\<bar>10 powr r\<bar> \<le> max_double" by simp
  then show ?thesis by (simp add: rounded_def)
qed

text \<open>The members that the constructor initialises.\<close>

lemma gd_c_G_Doppler:
  "gd_c (G_Doppler k q) =
     d_times (d_times (q ! 0) (d_plus (literal 1) (q ! 2)))
       (d_plus (literal 1) (d_divide (q ! 3) G_Doppler_C0))"
  by (simp add: G_Doppler_def Let_def)

lemma gd_b_G_Doppler:
  "gd_b (G_Doppler k q) = d_divide (d_times (q ! 4) (gd_c (G_Doppler k q))) G_Doppler_C0"
  by (simp add: G_Doppler_def Let_def)

lemma gd_a_G_Doppler:
  "gd_a (G_Doppler k q) =
     d_times (d_times (d_times (G_Doppler_C1 k) (q ! 1)) (pow_10 (q ! 5)))
       (d_times (q ! 0) (gd_c (G_Doppler k q)))"
  by (simp add: G_Doppler_def Let_def)

lemma G_Doppler_C0_value: "G_Doppler_C0 = Finite (299792458 / 1000)"
  by (simp add: G_Doppler_C0_def speed_of_light_def finite_arithmetic)

lemma G_Doppler_C1_value:
  "G_Doppler_C1 \<lparr>elementary_charge = 1, electric_constant = 1, electron_mass = 1\<rparr> =
     Finite (1 / 359502071494727056000000)"
  by (simp add: G_Doppler_C1_def speed_of_light_def finite_arithmetic)

text \<open>
  C1 as stated: a Doppler profile evaluates to exactly 0.0 at every wavelength \<open>x\<close> with
  \<open>|x - c| \<ge> 4 b\<close>, for every parameter slice \<open>q\<close>. It fails when the amplitude is not finite:
  with the logarithmic column density \<open>q[5] = 400\<close> the amplitude \<open>a\<close> overflows to infinity,
  \<open>truncate\<close> returns \<open>0.0\<close>, and \<open>a * 0.0\<close> is NaN.
\<close>

theorem G_Doppler_truncated_counterexample:
  "d_less_eq
     (d_times (literal 4)
        (gd_b (G_Doppler \<lparr>elementary_charge = 1, electric_constant = 1, electron_mass = 1\<rparr>
           [Finite 1000, Finite 1, Finite 1, Finite 0, Finite (299792458 / 1000), Finite 400])))
     (d_abs (d_minus (Finite 10000)
        (gd_c (G_Doppler \<lparr>elementary_charge = 1, electric_constant = 1, electron_mass = 1\<rparr>
           [Finite 1000, Finite 1, Finite 1, Finite 0, Finite (299792458 / 1000), Finite 400]))))
   \<and> G_Doppler_call
       (G_Doppler \<lparr>elementary_charge = 1, electric_constant = 1, electron_mass = 1\<rparr>
          [Finite 1000, Finite 1, Finite 1, Finite 0, Finite (299792458 / 1000), Finite 400])
       (Finite 10000) = NaN"
proof -
  let ?k = "\<lparr>elementary_charge = 1, electric_constant = 1, electron_mass = 1\<rparr>"
  let ?q = "[Finite 1000, Finite 1, Finite 1, Finite 0, Finite (299792458 / 1000), Finite 400]"
  note C0 = G_Doppler_C0_value
  have c: "gd_c (G_Doppler ?k ?q) = Finite 2000"
    unfolding gd_c_G_Doppler by (simp add: C0 finite_arithmetic)
  have b: "gd_b (G_Doppler ?k ?q) = Finite 2000"
    unfolding gd_b_G_Doppler c by (simp add: C0 finite_arithmetic)
  note C1 = G_Doppler_C1_value
  have a: "gd_a (G_Doppler ?k ?q) = Plus_infinity"
  proof -
    have "gd_a (G_Doppler ?k ?q) =
        d_times (d_times (d_times (G_Doppler_C1 ?k) (Finite 1)) (pow_10 (Finite 400)))
          (d_times (Finite 1000) (gd_c (G_Doppler ?k ?q)))"
      unfolding gd_a_G_Doppler by (simp del: pow_10.simps)
    also have "\<dots> = d_times (d_times (Finite (1 / 359502071494727056000000)) Plus_infinity)
          (Finite 2000000)"
      unfolding C1 c pow_10_overflow by (simp add: finite_arithmetic del: pow_10.simps)
    also have "\<dots> = Plus_infinity"
      by (simp add: d_times_def is_nan_def is_infinite_def is_zero_def infinity_def)
    finally show ?thesis .
  qed
  have outside: "d_less_eq (d_times (literal 4) (gd_b (G_Doppler ?k ?q)))
      (d_abs (d_minus (Finite 10000) (gd_c (G_Doppler ?k ?q))))"
    unfolding b c
    by (simp add: d_minus_def finite_arithmetic d_less_eq_def is_nan_def is_finite_def
        is_infinite_def)
  then have "truncate_f f_g (d_minus (Finite 10000) (gd_c (G_Doppler ?k ?q)))
      (gd_b (G_Doppler ?k ?q)) (literal 4) = Finite 0"
    by (intro truncate_outside d_less_eq_not_less)
  then have "G_Doppler_call (G_Doppler ?k ?q) (Finite 10000) = d_times Plus_infinity (Finite 0)"
    unfolding G_Doppler_call_def a by simp
  also have "\<dots> = NaN"
    by (rule times_zero_not_finite) (simp add: is_finite_def is_infinite_def)
  finally show ?thesis using outside by simp
qed



text \<open>
  C2 as stated: the adjusted rest wavelength of the constructor equals
  \<open>1 / (1/q[0] + q[6] (mu^2 + 2 mu) 1e-6)\<close> with \<open>mu = q[7] 1e-6\<close>. It fails: the constructor
  works in wavenumbers per centimetre (\<open>1.0E+08 / q[0]\<close>), so the factor is \<open>1e-8\<close>.
\<close>

theorem A_Doppler_rest_wavelength_counterexample:
  "ad_u (A_Doppler \<lparr>elementary_charge = 1, electric_constant = 1, electron_mass = 1\<rparr>
           [1, 0, 0, 0, 0, 0, 1, 1000000])
   \<noteq> spec_adjusted_rest_wavelength [1, 0, 0, 0, 0, 0, 1, 1000000]"
  by (simp add: A_Doppler_def spec_adjusted_rest_wavelength_def Let_def micro_def)

text \<open>
  C2, amended: the adjusted rest wavelength computed in the constructor of a many-multiplet
  profile equals \<open>1 / (1/q[0] + q[6] (mu^2 + 2 mu) 1e-8)\<close> with \<open>mu = q[7] 1e-6\<close>.
\<close>

theorem A_Doppler_rest_wavelength:
  assumes "length q = 8"
  shows "ad_u (A_Doppler k q) =
           (let mu = q ! 7 * (1 / 10 ^ 6)
            in 1 / (1 / q ! 0 + q ! 6 * (mu ^ 2 + 2 * mu) * (1 / 10 ^ 8)))"
proof -
  define mu where "mu = q ! 7 * (1 / 10 ^ 6)"
  define D where "D = 10 ^ 8 / q ! 0 + q ! 6 * mu * (mu + 2)"
  have u: "ad_u (A_Doppler k q) = 10 ^ 8 / D"
    by (simp add: A_Doppler_def Let_def micro_def D_def mu_def)
  have "1 / q ! 0 + q ! 6 * (mu ^ 2 + 2 * mu) * (1 / 10 ^ 8) = D / 10 ^ 8"
    by (simp add: D_def power2_eq_square algebra_simps add_divide_distrib)
  then have "1 / (1 / q ! 0 + q ! 6 * (mu ^ 2 + 2 * mu) * (1 / 10 ^ 8)) = 1 / (D / 10 ^ 8)"
    by (rule arg_cong)
  also have "\<dots> = 10 ^ 8 / D"
    by simp
  finally have "1 / (1 / q ! 0 + q ! 6 * (mu ^ 2 + 2 * mu) * (1 / 10 ^ 8)) = 10 ^ 8 / D" .
  with u show ?thesis
    by (simp add: Let_def mu_def)
qed

theorem A_Doppler_rest_wavelength_witness:
  "length [1, 0, 0, 0, 0, 0, 1, 1000000 :: real] = 8
   \<and> ad_u (A_Doppler \<lparr>elementary_charge = 1, electric_constant = 1, electron_mass = 1\<rparr>
           [1, 0, 0, 0, 0, 0, 1, 1000000]) = 100000000 / 100000003"
proof -
  have len: "length [1, 0, 0, 0, 0, 0, 1, 1000000 :: real] = 8" by simp
  show ?thesis
    using A_Doppler_rest_wavelength [OF len,
        of "\<lparr>elementary_charge = 1, electric_constant = 1, electron_mass = 1\<rparr>"]
    by (simp add: Let_def)
qed

section \<open>Properties of the bounded constraint\<close>

lemma is_violated_from_iff:
  "is_violated_from bc x n i \<longleftrightarrow>
     (\<exists>j. i \<le> j \<and> j < n \<and> (x ! j < bc_a bc ! j \<or> x ! j > bc_b bc ! j))"
proof (induction bc x n i rule: is_violated_from.induct)
  case (1 bc x n i)
  note unfold = is_violated_from.simps [of bc x n i]
  show ?case
  proof (cases "i < n")
    case False
    then show ?thesis using unfold by auto
  next
    case True
    show ?thesis
    proof (cases "x ! i < bc_a bc ! i \<or> x ! i > bc_b bc ! i")
      case hit: True
      then have "is_violated_from bc x n i" using True unfold by simp
      moreover have "\<exists>j. i \<le> j \<and> j < n \<and> (x ! j < bc_a bc ! j \<or> x ! j > bc_b bc ! j)"
        using True hit by (intro exI [of _ i]) simp
      ultimately show ?thesis by simp
    next
      case False
      have "is_violated_from bc x n i = is_violated_from bc x n (i + 1)"
        using True False unfold by simp
      also have "\<dots> \<longleftrightarrow>
          (\<exists>j. i + 1 \<le> j \<and> j < n \<and> (x ! j < bc_a bc ! j \<or> x ! j > bc_b bc ! j))"
        using "1.IH" [OF True False] .
      also have "\<dots> \<longleftrightarrow>
          (\<exists>j. i \<le> j \<and> j < n \<and> (x ! j < bc_a bc ! j \<or> x ! j > bc_b bc ! j))"
      proof
        assume "\<exists>j. i + 1 \<le> j \<and> j < n \<and> (x ! j < bc_a bc ! j \<or> x ! j > bc_b bc ! j)"
        then obtain j where "i + 1 \<le> j" "j < n" "x ! j < bc_a bc ! j \<or> x ! j > bc_b bc ! j"
          by blast
        then show "\<exists>j. i \<le> j \<and> j < n \<and> (x ! j < bc_a bc ! j \<or> x ! j > bc_b bc ! j)"
          by (intro exI [of _ j]) simp
      next
        assume "\<exists>j. i \<le> j \<and> j < n \<and> (x ! j < bc_a bc ! j \<or> x ! j > bc_b bc ! j)"
        then obtain j where j: "i \<le> j" "j < n" "x ! j < bc_a bc ! j \<or> x ! j > bc_b bc ! j"
          by blast
        with False have "j \<noteq> i" by auto
        with j show "\<exists>j. i + 1 \<le> j \<and> j < n \<and> (x ! j < bc_a bc ! j \<or> x ! j > bc_b bc ! j)"
          by (intro exI [of _ j]) simp
      qed
      finally show ?thesis .
    qed
  qed
qed

text \<open>
  C5. For bound vectors \<open>a\<close>, \<open>b\<close> of length \<open>n\<close> and a parameter vector \<open>x\<close>,
  \<open>is_violated(x, n)\<close> is true if and only if some index \<open>i < n\<close> has
  \<open>x[i] < a[i]\<close> or \<open>x[i] > b[i]\<close>; and \<open>cost\<close> is zero for every vector and every count.
\<close>

theorem Bounded_Constraint_is_violated_iff:
  assumes "length lower_bounds = n" and "length upper_bounds = n" and "n \<le> length x"
  shows "(is_violated (Bounded_Constraint lower_bounds upper_bounds n) x n \<longleftrightarrow>
            (\<exists>i<n. x ! i < lower_bounds ! i \<or> x ! i > upper_bounds ! i))
         \<and> constraint_cost (Bounded_Constraint lower_bounds upper_bounds n) y m = 0"
  by (auto simp: is_violated_def is_violated_from_iff Bounded_Constraint_def constraint_cost_def)

theorem Bounded_Constraint_is_violated_iff_witness:
  "length [0, 0 :: real] = 2 \<and> length [1, 1 :: real] = 2 \<and> 2 \<le> length [1 / 2, 2 :: real]
   \<and> is_violated (Bounded_Constraint [0, 0] [1, 1] 2) [1 / 2, 2] 2
   \<and> (\<exists>i<2. [1 / 2, 2 :: real] ! i < [0, 0] ! i \<or> [1 / 2, 2 :: real] ! i > [1, 1] ! i)
   \<and> constraint_cost (Bounded_Constraint [0, 0] [1, 1] 2) [1 / 2, 2] 2 = 0"
proof -
  have ex: "\<exists>i<2. [1 / 2, 2 :: real] ! i < [0, 0] ! i \<or> [1 / 2, 2 :: real] ! i > [1, 1] ! i"
    by (rule exI [of _ 1]) simp
  have a: "length [0, 0 :: real] = 2" and b: "length [1, 1 :: real] = 2"
    and c: "2 \<le> length [1 / 2, 2 :: real]"
    by simp_all
  show ?thesis
    using Bounded_Constraint_is_violated_iff [OF a b c, of "[1 / 2, 2]" 2] ex by simp
qed

section \<open>Properties of the eigenproblem solver\<close>

text \<open>
  C6 as stated: the solver fails with an invalid-argument error whenever the problem
  dimension is \<open>n \<le> 0\<close> or the matrix has an entry that is not finite. It fails:
  \<open>operator()\<close> tests neither \<open>n\<close> nor the entries of \<open>A\<close>, it throws only when the routine
  reports \<open>info \<noteq> 0\<close>. With a routine that reports success, a solver of dimension 0 is
  constructed and returns normally, and so does a solver of dimension 1 on the matrix
  whose entry is NaN.
\<close>

theorem R_Decompose_invalid_argument_counterexample:
  "R_Decompose accepting_syevr 0 = Inr \<lparr>rd_n = 0, rd_lwork = 1, rd_liwork = 1\<rparr> \<and>
   R_Decompose_call accepting_syevr \<lparr>rd_n = 0, rd_lwork = 1, rd_liwork = 1\<rparr> [] = Inr ([], []) \<and>
   R_Decompose accepting_syevr 1 = Inr \<lparr>rd_n = 1, rd_lwork = 1, rd_liwork = 1\<rparr> \<and>
   \<not> is_finite NaN \<and>
   R_Decompose_call accepting_syevr \<lparr>rd_n = 1, rd_lwork = 1, rd_liwork = 1\<rparr> [NaN] =
     Inr ([NaN], [NaN])"
  by (simp add: R_Decompose_def R_Decompose_call_def call_syevr_def accepting_syevr_def
      transpose_m_def swap_def is_finite_def is_nan_def Let_def)

text \<open>
  C6, amended: \<open>R_Decompose::operator()\<close> fails with a runtime error exactly when the routine
  reports \<open>info > 0\<close> (it has not converged), fails with an invalid-argument error exactly
  when the routine reports \<open>info < 0\<close> (an argument of the call is illegal), and returns
  normally exactly when the routine reports \<open>info = 0\<close>, with the eigenvalues \<open>w\<close> and the
  transposed matrix \<open>Z\<close> that the routine has written.
\<close>

theorem R_Decompose_call_outcome:
  "(R_Decompose_call routine d A = Inl Runtime_error \<longleftrightarrow> 0 < sr_info (call_syevr routine d A)) \<and>
   (R_Decompose_call routine d A = Inl Invalid_argument \<longleftrightarrow>
      sr_info (call_syevr routine d A) < 0) \<and>
   (R_Decompose_call routine d A =
      Inr (transpose_m (rd_n d) (sr_Z (call_syevr routine d A)), sr_w (call_syevr routine d A)) \<longleftrightarrow>
      sr_info (call_syevr routine d A) = 0)"
  by (simp add: R_Decompose_call_def Let_def)

theorem R_Decompose_call_outcome_witness:
  "sr_info (call_syevr accepting_syevr \<lparr>rd_n = 1, rd_lwork = 1, rd_liwork = 1\<rparr> [Finite 2]) = 0 \<and>
   R_Decompose_call accepting_syevr \<lparr>rd_n = 1, rd_lwork = 1, rd_liwork = 1\<rparr> [Finite 2] =
     Inr ([Finite 2], [Finite 2])"
  using R_Decompose_call_outcome
    [of accepting_syevr "\<lparr>rd_n = 1, rd_lwork = 1, rd_liwork = 1\<rparr>" "[Finite 2]"]
  by (simp add: call_syevr_def accepting_syevr_def transpose_m_def swap_def)

section \<open>Properties of the model\<close>

subsection \<open>Loops\<close>

text \<open>A loop whose body goes round again in an unchanged state never returns.\<close>

lemma while_loop_stuck:
  assumes "body s = Continue s"
  shows "while_loop body s = None"
proof (rule ccontr)
  assume "while_loop body s \<noteq> None"
  then obtain y where y: "while_loop body s = Some y" by auto
  have "body s \<noteq> Continue s"
  proof (rule while_loop.raw_induct [where P = "\<lambda>b x y. b x \<noteq> Continue x", OF _ y])
    fix wl :: "('a \<Rightarrow> 'a step) \<Rightarrow> 'a \<Rightarrow> (error + 'a) option" and b x r
    assume IH: "\<And>b x y. wl b x = Some y \<Longrightarrow> b x \<noteq> Continue x"
      and run: "(case b x of Done s' \<Rightarrow> Some (Inr s') | Fail e \<Rightarrow> Some (Inl e)
                 | Continue s' \<Rightarrow> wl b s') = Some r"
    show "b x \<noteq> Continue x"
    proof
      assume c: "b x = Continue x"
      with run have "wl b x = Some r" by simp
      from IH [OF this] c show False by simp
    qed
  qed
  with assms show False by simp
qed

lemma while_loop_Done: "body s = Done s' \<Longrightarrow> while_loop body s = Some (Inr s')"
  by (subst while_loop.simps) simp

lemma while_loop_Fail: "body s = Fail e \<Longrightarrow> while_loop body s = Some (Inl e)"
  by (subst while_loop.simps) simp

lemma while_loop_Continue: "body s = Continue s' \<Longrightarrow> while_loop body s = while_loop body s'"
  by (subst while_loop.simps) simp

subsection \<open>A self-reference that is reached through another line\<close>

lemmas example_defs =
  trivial_env_def empty_model_def ios_at_eof_def doppler_line_def one_section_def

lemma self_reference_input_chunks:
  "get_chunks trivial_env 6 self_reference_input empty_locals 0 =
     Inr (\<lparr>l_sec = [()], l_isc = [0], l_nle = [3], l_nli = [2],
           l_val = [50, 1215, 2 / 5, 2, 0, 5, 13, 1215, 2 / 5, 2, 0, 5, 13],
           l_lo = [40, 0, 0, 1, 0, 0, 0, 0, 0, 1, 0, 0, 0],
           l_up = [60, 0, 0, 3, 0, 0, 0, 0, 0, 3, 0, 0, 0],
           l_msk = [False, False, False, True, False, False, False, False, False, True,
                    False, False, False],
           l_ind = [], l_pim = [(''a'', 1), (''b'', 7)], l_sim = [(''s'', 0)],
           l_ref = [[], [], [], ''b'', [], [], [], [], [], ''b'', [], [], []]\<rparr>, 13)"
  by (simp add: self_reference_input_def example_defs get_section_def read_def
      append_specs_def empty_locals_def)

lemma self_reference_input_indexed:
  "index_loop \<lparr>l_sec = [()], l_isc = [0], l_nle = [3], l_nli = [2],
           l_val = [50, 1215, 2 / 5, 2, 0, 5, 13, 1215, 2 / 5, 2, 0, 5, 13],
           l_lo = [40, 0, 0, 1, 0, 0, 0, 0, 0, 1, 0, 0, 0],
           l_up = [60, 0, 0, 3, 0, 0, 0, 0, 0, 3, 0, 0, 0],
           l_msk = [False, False, False, True, False, False, False, False, False, True,
                    False, False, False],
           l_ind = [], l_pim = [(''a'', 1), (''b'', 7)], l_sim = [(''s'', 0)],
           l_ref = [[], [], [], ''b'', [], [], [], [], [], ''b'', [], [], []]\<rparr> 0 0 =
     \<lparr>l_sec = [()], l_isc = [0], l_nle = [3], l_nli = [2],
      l_val = [50, 1215, 2 / 5, 2, 0, 5, 13, 1215, 2 / 5, 2, 0, 5, 13],
      l_lo = [0, 0, 0, 0, 0, 0, 0, 0, 0, 0, 0, 0, 0],
      l_up = [0, 0, 0, 0, 0, 0, 0, 0, 0, 0, 0, 0, 0],
      l_msk = [False, False, False, True, False, False, False, False, False, True,
               False, False, False],
      l_ind = [0, 0, 0, 0, 0, 0, 0, 0, 0, 0, 0, 0, 0],
      l_pim = [(''a'', 1), (''b'', 7)], l_sim = [(''s'', 0)],
      l_ref = [[], [], [], ''b'', [], [], [], [], [], ''b'', [], [], []]\<rparr>"
  by (simp add: index_loop.simps)

lemma get_diverges:
  assumes "get_chunks env pc chunks empty_locals 0 = Inr (L0, i)"
    and "deref_sections (l_sim L0) (index_loop L0 0 0) = Some (Inr L1)"
    and "deref_lines pc (l_pim L1) L1 = None"
  shows "get env pc chunks ios m = None"
  using assms by (simp add: get_def)

text \<open>
  C7 fails on this input. Line \<open>a\<close> is dereferenced first; its redshift refers to line
  \<open>b\<close>, whose redshift refers to line \<open>b\<close>. The loop \<open>while (!ref[k].empty())\<close> assigns
  \<open>ref[k] = ref[l]\<close>, which is the reference to \<open>b\<close> again, and never meets \<open>k == l\<close>:
  \<open>get\<close> does not return.
\<close>

theorem get_self_reference_diverges:
  "get trivial_env 6 self_reference_input ios_at_eof empty_model = None"
proof -
  define L0 :: "unit locals" where "L0 =
     \<lparr>l_sec = [()], l_isc = [0], l_nle = [3], l_nli = [2],
      l_val = [50, 1215, 2 / 5, 2, 0, 5, 13, 1215, 2 / 5, 2, 0, 5, 13],
      l_lo = [40, 0, 0, 1, 0, 0, 0, 0, 0, 1, 0, 0, 0],
      l_up = [60, 0, 0, 3, 0, 0, 0, 0, 0, 3, 0, 0, 0],
      l_msk = [False, False, False, True, False, False, False, False, False, True,
               False, False, False],
      l_ind = [], l_pim = [(''a'', 1), (''b'', 7)], l_sim = [(''s'', 0)],
      l_ref = [[], [], [], ''b'', [], [], [], [], [], ''b'', [], [], []]\<rparr>"
  define L :: "unit locals" where "L =
     \<lparr>l_sec = [()], l_isc = [0], l_nle = [3], l_nli = [2],
      l_val = [50, 1215, 2 / 5, 2, 0, 5, 13, 1215, 2 / 5, 2, 0, 5, 13],
      l_lo = [0, 0, 0, 0, 0, 0, 0, 0, 0, 0, 0, 0, 0],
      l_up = [0, 0, 0, 0, 0, 0, 0, 0, 0, 0, 0, 0, 0],
      l_msk = [False, False, False, True, False, False, False, False, False, True,
               False, False, False],
      l_ind = [0, 0, 0, 0, 0, 0, 0, 0, 0, 0, 0, 0, 0],
      l_pim = [(''a'', 1), (''b'', 7)], l_sim = [(''s'', 0)],
      l_ref = [[], [], [], ''b'', [], [], [], [], [], ''b'', [], [], []]\<rparr>"
  have chunks: "get_chunks trivial_env 6 self_reference_input empty_locals 0 = Inr (L0, 13)"
    unfolding L0_def by (rule self_reference_input_chunks)
  have indexed: "index_loop L0 0 0 = L"
    unfolding L0_def L_def by (rule self_reference_input_indexed)
  have sim: "l_sim L0 = [(''s'', 0)]" and pim: "l_pim L = [(''a'', 1), (''b'', 7)]"
    by (simp_all add: L0_def L_def)
  have "deref_section_step (l_isc L ! 0) L = Done L"
    by (simp add: L_def deref_section_step_def)
  then have "while_loop (deref_section_step (l_isc L ! 0)) L = Some (Inr L)"
    by (rule while_loop_Done)
  then have sections: "deref_sections (l_sim L0) (index_loop L0 0 0) = Some (Inr L)"
    unfolding sim indexed by simp
  have j0: "while_loop (deref_line_step 1 0) L = Some (Inr L)"
    by (rule while_loop_Done) (simp add: L_def deref_line_step_def)
  have j1: "while_loop (deref_line_step 1 1) L = Some (Inr L)"
    by (rule while_loop_Done) (simp add: L_def deref_line_step_def)
  have "deref_line_step 1 2 L = Continue L"
    by (simp add: L_def deref_line_step_def)
  then have j2: "while_loop (deref_line_step 1 2) L = None"
    by (rule while_loop_stuck)
  have "deref_line 6 1 2 L = None"
    by (subst deref_line.simps) (simp add: j2 del: One_nat_def)
  then have "deref_line 6 1 1 L = None"
    by (subst deref_line.simps) (simp add: j1 del: One_nat_def)
  then have "deref_line 6 1 0 L = None"
    by (subst deref_line.simps) (simp add: j0 del: One_nat_def)
  then have lines: "deref_lines 6 (l_pim L) L = None"
    unfolding pim by (simp del: One_nat_def)
  show ?thesis
    by (rule get_diverges [OF chunks sections lines])
qed

text \<open>
  What holds of C7: every error return of \<open>get\<close> sets the fail state of the input stream
  and leaves the model as it was.
\<close>

lemma get_error_keeps_model:
  assumes "get env pc chunks ios m = Some (Some e, ios', m')"
  shows "m' = m \<and> failbit ios'"
  using assms
  by (auto simp: get_def split: sum.splits option.splits prod.splits)

subsection \<open>\<open>get\<close> on the example inputs\<close>

lemma get_returns:
  assumes "get_chunks env pc chunks empty_locals 0 = Inr (L0, i)"
    and "deref_sections (l_sim L0) (index_loop L0 0 0) = Some (Inr L1)"
    and "deref_lines pc (l_pim L1) L1 = Some (Inr L2)"
  shows "get env pc chunks ios m = Some (None, ios\<lparr>failbit := False\<rparr>, store L2 m)"
  using assms by (simp add: get_def)

lemma get_pinned_input:
  "get trivial_env 6 pinned_input ios_at_eof empty_model =
     Some (None, ios_at_eof\<lparr>failbit := False\<rparr>, pinned_model)"
  by (simp add: get_def pinned_input_def example_defs get_section_def read_def
      append_specs_def empty_locals_def index_loop.simps while_loop.simps
      deref_section_step_def deref_line_step_def deref_line.simps store_def pinned_model_def)

lemma get_linked_input:
  "get trivial_env 6 linked_input ios_at_eof empty_model =
     Some (None, ios_at_eof\<lparr>failbit := False\<rparr>, linked_model)"
  by (simp add: get_def linked_input_def example_defs get_section_def read_def
      append_specs_def empty_locals_def index_loop.simps while_loop.simps
      deref_section_step_def deref_line_step_def deref_line.simps copy_parameter_def
      store_def linked_model_def)

text \<open>
  C8 fails on a model without free parameters. \<open>get_parameter_count\<close> is \<open>ind.max() + 1\<close>,
  which is 1 when every index is 0: the vectors of initial values and of initial local
  step sizes have one component, though the model has no free, unlinked parameter.
\<close>

theorem pinned_model_parameter_count:
  "get trivial_env 6 pinned_input ios_at_eof empty_model =
     Some (None, ios_at_eof\<lparr>failbit := False\<rparr>, pinned_model)
   \<and> filter (\<lambda>s. s_msk s \<and> s_ref s = []) (parameter_specs pinned_input) = []
   \<and> get_parameter_count pinned_model = Some 1
   \<and> get_initial_parameter_values pinned_model = Some [0]
   \<and> get_initial_local_step_sizes pinned_model = Some [0]"
proof -
  have "filter (\<lambda>s. s_msk s \<and> s_ref s = []) (parameter_specs pinned_input) = []"
    by (simp add: parameter_specs_def pinned_input_def one_section_def section_specs_def
        doppler_line_def)
  moreover have count: "get_parameter_count pinned_model = Some 1"
    by (simp add: get_parameter_count_def valarray_max_def pinned_model_def)
  moreover have "get_initial_parameter_values pinned_model = Some [0]"
    unfolding get_initial_parameter_values_def count
    by (simp add: initial_parameter_values_loop.simps pinned_model_def)
  moreover have "get_initial_local_step_sizes pinned_model = Some [0]"
    unfolding get_initial_local_step_sizes_def count
    by (simp add: initial_local_step_sizes_loop.simps pinned_model_def)
  ultimately show ?thesis
    using get_pinned_input by simp
qed

text \<open>
  C10 as stated: after a successful \<open>get\<close>, every pinned or linked parameter has
  \<open>lo[i] = up[i] = 0\<close>. It fails for a parameter that is linked to a free one:
  dereferencing copies the bounds of the target. Parameter 9 of \<open>linked_input\<close> is the
  redshift of line \<open>b\<close>, linked to line \<open>a\<close>.
\<close>

theorem linked_parameter_bounds_counterexample:
  "get trivial_env 6 linked_input ios_at_eof empty_model =
     Some (None, ios_at_eof\<lparr>failbit := False\<rparr>, linked_model)
   \<and> s_ref (parameter_specs linked_input ! 9) = ''a''
   \<and> lo linked_model ! 9 = 1 \<and> up linked_model ! 9 = 3
   \<and> \<not> (lo linked_model ! 9 = 0 \<and> up linked_model ! 9 = 0)"
proof -
  have "s_ref (parameter_specs linked_input ! 9) = ''a''"
    by (simp add: parameter_specs_def linked_input_def one_section_def section_specs_def
        doppler_line_def)
  moreover have "lo linked_model ! 9 = 1" and "up linked_model ! 9 = 3"
    by (simp_all add: linked_model_def)
  ultimately show ?thesis
    using get_linked_input by simp
qed

subsection \<open>Reading the sections keeps the vectors aligned\<close>

lemma set_map_insert: "set (map_insert key v m) \<subseteq> insert (key, v) (set m)"
  by (induction m) (auto split: if_splits)

lemma grows_refl: "grows L [] L"
  by (simp add: grows_def)

lemma grows_trans: "grows L ps L1 \<Longrightarrow> grows L1 qs L2 \<Longrightarrow> grows L (ps @ qs) L2"
  by (simp add: grows_def)

lemma read_Some: "read n src = Some ps \<Longrightarrow> src = Some ps \<and> length ps = n"
  by (auto simp: read_def split: option.splits if_splits)

lemma alignedD:
  assumes "aligned pc L i"
  shows "length (l_val L) = i" "length (l_lo L) = i" "length (l_up L) = i"
    "length (l_msk L) = i" "length (l_ref L) = i" "length (l_sec L) = length (l_isc L)"
    and "\<And>sid v. (sid, v) \<in> set (l_sim L) \<Longrightarrow> v < length (l_isc L)"
    and "\<And>b. b \<in> set (l_isc L) \<Longrightarrow> b < i"
    and "\<And>lid v. (lid, v) \<in> set (l_pim L) \<Longrightarrow> v + pc \<le> i"
    and "\<And>lid v lid' v'. (lid, v) \<in> set (l_pim L) \<Longrightarrow> (lid', v') \<in> set (l_pim L) \<Longrightarrow>
           v = v' \<or> v + pc \<le> v' \<or> v' + pc \<le> v"
    and "\<And>b lid v. b \<in> set (l_isc L) \<Longrightarrow> (lid, v) \<in> set (l_pim L) \<Longrightarrow> b < v \<or> v + pc \<le> b"
  using assms unfolding aligned_def by blast+

lemma alignedI:
  assumes "length (l_val L) = i" "length (l_lo L) = i" "length (l_up L) = i"
    "length (l_msk L) = i" "length (l_ref L) = i" "length (l_sec L) = length (l_isc L)"
    and "\<And>sid v. (sid, v) \<in> set (l_sim L) \<Longrightarrow> v < length (l_isc L)"
    and "\<And>b. b \<in> set (l_isc L) \<Longrightarrow> b < i"
    and "\<And>lid v. (lid, v) \<in> set (l_pim L) \<Longrightarrow> v + pc \<le> i"
    and "\<And>lid v lid' v'. (lid, v) \<in> set (l_pim L) \<Longrightarrow> (lid', v') \<in> set (l_pim L) \<Longrightarrow>
           v = v' \<or> v + pc \<le> v' \<or> v' + pc \<le> v"
    and "\<And>b lid v. b \<in> set (l_isc L) \<Longrightarrow> (lid, v) \<in> set (l_pim L) \<Longrightarrow> b < v \<or> v + pc \<le> b"
  shows "aligned pc L i"
  unfolding aligned_def using assms by blast

lemma aligned_empty_locals: "aligned pc empty_locals 0"
  by (rule alignedI) (simp_all add: empty_locals_def)

lemma aligned_line:
  assumes "aligned pc L i" and "length ps = pc"
  shows "aligned pc (append_specs ps (L\<lparr>l_pim := map_insert lid i (l_pim L)\<rparr>)) (i + pc)"
proof -
  let ?L' = "append_specs ps (L\<lparr>l_pim := map_insert lid i (l_pim L)\<rparr>)"
  note a = alignedD [OF assms(1)]
  have fields: "l_pim ?L' = map_insert lid i (l_pim L)" "l_isc ?L' = l_isc L"
    "l_sim ?L' = l_sim L" "l_sec ?L' = l_sec L"
    by (simp_all add: append_specs_def)
  have new: "v = i \<or> (a, v) \<in> set (l_pim L)" if "(a, v) \<in> set (l_pim ?L')" for a v
    using that set_map_insert [of lid i "l_pim L"] unfolding fields by auto
  show ?thesis
  proof (rule alignedI)
    show "length (l_val ?L') = i + pc" "length (l_lo ?L') = i + pc" "length (l_up ?L') = i + pc"
      "length (l_msk ?L') = i + pc" "length (l_ref ?L') = i + pc"
      using a(1-5) assms(2) by (simp_all add: append_specs_def)
    show "length (l_sec ?L') = length (l_isc ?L')" using a(6) by (simp add: fields)
    show "v < length (l_isc ?L')" if "(sid, v) \<in> set (l_sim ?L')" for sid v
      using that a(7) by (simp add: fields)
    show "b < i + pc" if "b \<in> set (l_isc ?L')" for b
      using that a(8) [of b] by (simp add: fields)
    show "v + pc \<le> i + pc" if "(a, v) \<in> set (l_pim ?L')" for a v
      using new [OF that] a(9) [of a v] by auto
    show "v = v' \<or> v + pc \<le> v' \<or> v' + pc \<le> v"
      if "(a, v) \<in> set (l_pim ?L')" and "(b, v') \<in> set (l_pim ?L')" for a v b v'
      using new [OF that(1)] new [OF that(2)] a(9) [of a v] a(9) [of b v'] a(10) [of a v b v']
      by auto
    show "b < v \<or> v + pc \<le> b" if "b \<in> set (l_isc ?L')" and "(a, v) \<in> set (l_pim ?L')" for b a v
      using that(1) new [OF that(2)] a(8) [of b] a(11) [of b a v] by (auto simp: fields)
  qed
qed

lemma grows_line: "grows L ps (append_specs ps (L\<lparr>l_pim := m\<rparr>))"
  by (simp add: grows_def append_specs_def)

lemma get_lines_aligned:
  assumes "get_lines pc ls L i k = Inr (L', i', k')" and "aligned pc L i"
  shows "aligned pc L' i' \<and> grows L (concat (map line_specs ls)) L'"
  using assms
proof (induction ls arbitrary: L i k)
  case Nil
  then show ?case by (simp add: grows_refl)
next
  case (Cons l ls)
  obtain lid src where l: "l = Line_src lid src" by (cases l)
  from Cons.prems(1) obtain ps where ps: "read pc src = Some ps"
    and rest: "get_lines pc ls (append_specs ps (L\<lparr>l_pim := map_insert lid i (l_pim L)\<rparr>))
                 (i + pc) (k + 1) = Inr (L', i', k')"
    by (auto simp: l split: if_splits option.splits)
  from read_Some [OF ps] have src: "src = Some ps" and len: "length ps = pc" by simp_all
  let ?L1 = "append_specs ps (L\<lparr>l_pim := map_insert lid i (l_pim L)\<rparr>)"
  have "aligned pc ?L1 (i + pc)" using Cons.prems(2) len by (rule aligned_line)
  from Cons.IH [OF rest this] have wf': "aligned pc L' i'"
    and g: "grows ?L1 (concat (map line_specs ls)) L'" by simp_all
  have "grows L ps ?L1" by (rule grows_line)
  from grows_trans [OF this g] have "grows L (concat (map line_specs (l # ls))) L'"
    by (simp add: l src)
  with wf' show ?case by simp
qed

lemma aligned_section:
  assumes "aligned pc L i" and "length ps = 1"
  shows "aligned pc (append_specs ps
            (L\<lparr>l_sim := map_insert sid (length (l_sec L)) (l_sim L), l_sec := l_sec L @ [s],
               l_isc := l_isc L @ [i], l_nle := l_nle L @ [p]\<rparr>)) (i + 1)"
proof -
  let ?L' = "append_specs ps
            (L\<lparr>l_sim := map_insert sid (length (l_sec L)) (l_sim L), l_sec := l_sec L @ [s],
               l_isc := l_isc L @ [i], l_nle := l_nle L @ [p]\<rparr>)"
  note a = alignedD [OF assms(1)]
  have fields: "l_pim ?L' = l_pim L" "l_isc ?L' = l_isc L @ [i]"
    "l_sim ?L' = map_insert sid (length (l_sec L)) (l_sim L)" "l_sec ?L' = l_sec L @ [s]"
    by (simp_all add: append_specs_def)
  have new: "v = length (l_sec L) \<or> (a, v) \<in> set (l_sim L)" if "(a, v) \<in> set (l_sim ?L')" for a v
    using that set_map_insert [of sid "length (l_sec L)" "l_sim L"] unfolding fields by auto
  show ?thesis
  proof (rule alignedI)
    show "length (l_val ?L') = i + 1" "length (l_lo ?L') = i + 1" "length (l_up ?L') = i + 1"
      "length (l_msk ?L') = i + 1" "length (l_ref ?L') = i + 1"
      using a(1-5) assms(2) by (simp_all add: append_specs_def)
    show "length (l_sec ?L') = length (l_isc ?L')" unfolding fields using a(6) by simp
    show "v < length (l_isc ?L')" if "(a, v) \<in> set (l_sim ?L')" for a v
      unfolding fields using new [OF that] a(7) [of a v] a(6) by auto
    show "b < i + 1" if "b \<in> set (l_isc ?L')" for b
      using that a(8) [of b] by (auto simp: fields)
    show "v + pc \<le> i + 1" if "(a, v) \<in> set (l_pim ?L')" for a v
      using that a(9) [of a v] by (simp add: fields)
    show "v = v' \<or> v + pc \<le> v' \<or> v' + pc \<le> v"
      if "(a, v) \<in> set (l_pim ?L')" and "(b, v') \<in> set (l_pim ?L')" for a v b v'
      using that a(10) [of a v b v'] by (simp add: fields)
    show "b < v \<or> v + pc \<le> b" if "b \<in> set (l_isc ?L')" and "(a, v) \<in> set (l_pim ?L')" for b a v
      using that a(9) [of a v] a(11) [of b a v] by (auto simp: fields)
  qed
qed

lemma grows_section:
  "grows L ps (append_specs ps (L\<lparr>l_sim := a, l_sec := b, l_isc := c, l_nle := d\<rparr>))"
  by (simp add: grows_def append_specs_def)

lemma get_section_aligned:
  assumes "get_section env pc c L i = Inr (L', i')" and "aligned pc L i"
  shows "aligned pc L' i' \<and> grows L (chunk_specs c) L'"
proof -
  from assms(1) obtain src where c: "c = Section_chunk src"
    by (cases c) (simp_all add: get_section_def)
  from assms(1) obtain ifs s ps L2 k where
    ps: "read 1 (src_resolution src) = Some ps"
    and lines: "get_lines pc (src_lines src)
         (append_specs ps
            (L\<lparr>l_sim := map_insert (src_sid src) (length (l_sec L)) (l_sim L),
               l_sec := l_sec L @ [fold (\<lambda>(a, b) s. section_mask env s a b) (src_masks src) s],
               l_isc := l_isc L @ [i], l_nle := l_nle L @ [src_p src]\<rparr>)) (i + 1) 0 = Inr (L2, i', k)"
    and L': "L' = L2\<lparr>l_nli := l_nli L2 @ [k]\<rparr>"
    by (auto simp: c get_section_def split: if_splits option.splits sum.splits)
  from read_Some [OF ps] have src: "src_resolution src = Some ps" and len: "length ps = 1"
    by simp_all
  let ?L1 = "append_specs ps
            (L\<lparr>l_sim := map_insert (src_sid src) (length (l_sec L)) (l_sim L),
               l_sec := l_sec L @ [fold (\<lambda>(a, b) s. section_mask env s a b) (src_masks src) s],
               l_isc := l_isc L @ [i], l_nle := l_nle L @ [src_p src]\<rparr>)"
  have "aligned pc ?L1 (i + 1)" using assms(2) len by (rule aligned_section)
  from get_lines_aligned [OF lines this] have wf2: "aligned pc L2 i'"
    and g: "grows ?L1 (concat (map line_specs (src_lines src))) L2" by simp_all
  have "grows L ps ?L1" by (rule grows_section)
  from grows_trans [OF this g] have "grows L (chunk_specs c) L2"
    by (simp add: c section_specs_def src)
  then have "grows L (chunk_specs c) L'" by (simp add: L' grows_def)
  moreover from wf2 have "aligned pc L' i'" unfolding aligned_def by (simp add: L')
  ultimately show ?thesis by simp
qed

lemma get_chunks_aligned:
  assumes "get_chunks env pc cs L i = Inr (L', i')" and "aligned pc L i"
  shows "aligned pc L' i' \<and> grows L (concat (map chunk_specs cs)) L'"
  using assms
proof (induction cs arbitrary: L i)
  case Nil
  then show ?case by (simp add: grows_refl)
next
  case (Cons c cs)
  from Cons.prems(1) obtain L1 i1 where c: "get_section env pc c L i = Inr (L1, i1)"
    and rest: "get_chunks env pc cs L1 i1 = Inr (L', i')"
    by (auto split: sum.splits)
  from get_section_aligned [OF c Cons.prems(2)] have wf1: "aligned pc L1 i1"
    and g1: "grows L (chunk_specs c) L1" by simp_all
  from Cons.IH [OF rest wf1] have wf': "aligned pc L' i'"
    and g: "grows L1 (concat (map chunk_specs cs)) L'" by simp_all
  from grows_trans [OF g1 g] wf' show ?case by simp
qed

lemma get_chunks_parameters:
  assumes "get_chunks env pc chunks empty_locals 0 = Inr (L, i)"
  shows "aligned pc L i" and "l_msk L = map s_msk (parameter_specs chunks)"
    and "l_ref L = map s_ref (parameter_specs chunks)" and "l_ind L = []"
    and "l_lo L = map s_lo (parameter_specs chunks)"
    and "l_up L = map s_up (parameter_specs chunks)"
proof -
  from get_chunks_aligned [OF assms aligned_empty_locals]
  have w: "aligned pc L i" and g: "grows empty_locals (parameter_specs chunks) L"
    by (simp_all add: parameter_specs_def)
  show "aligned pc L i" by (rule w)
  from g show "l_msk L = map s_msk (parameter_specs chunks)"
    and "l_ref L = map s_ref (parameter_specs chunks)" and "l_ind L = []"
    and "l_lo L = map s_lo (parameter_specs chunks)"
    and "l_up L = map s_up (parameter_specs chunks)"
    by (simp_all add: grows_def empty_locals_def)
qed

subsection \<open>Indexing\<close>

lemma index_loop_indexed:
  assumes "length (l_lo L) = length (l_msk L)" and "length (l_up L) = length (l_msk L)"
    and "length (l_ref L) = length (l_msk L)" and "length (l_ind L) = i"
    and "i \<le> length (l_msk L)"
  shows "indexed i L (index_loop L i k)"
  using assms
proof (induction L i k rule: index_loop.induct)
  case (1 L i k)
  note unfold = index_loop.simps [of L i k]
  show ?case
  proof (cases "i < length (l_msk L)")
    case False
    with "1.prems" unfold show ?thesis by (simp add: indexed_def)
  next
    case inside: True
    show ?thesis
    proof (cases "l_msk L ! i \<and> l_ref L ! i = []")
      case free: True
      define L1 where "L1 =
         (if l_lo L ! i > l_up L ! i
          then L\<lparr>l_lo := (l_lo L)[i := l_up L ! i], l_up := (l_up L)[i := l_lo L ! i]\<rparr>
          else L)\<lparr>l_ind := l_ind L @ [k]\<rparr>"
      have run: "index_loop L i k = index_loop L1 (i + 1) (k + 1)"
        by (subst unfold) (simp add: inside free L1_def)
      have same: "l_msk L1 = l_msk L" "l_ref L1 = l_ref L" "l_sec L1 = l_sec L"
        "l_isc L1 = l_isc L" "l_val L1 = l_val L" "l_pim L1 = l_pim L" "l_sim L1 = l_sim L"
        by (simp_all add: L1_def)
      have len: "length (l_lo L1) = length (l_msk L1)" "length (l_up L1) = length (l_msk L1)"
        "length (l_ref L1) = length (l_msk L1)" "length (l_ind L1) = i + 1"
        "i + 1 \<le> length (l_msk L1)"
        using "1.prems" inside by (simp_all add: L1_def)
      have below: "l_lo L1 ! p = l_lo L ! p \<and> l_up L1 ! p = l_up L ! p" if "p < i" for p
        using that by (simp add: L1_def)
      have here: "l_lo L1 ! i \<le> l_up L1 ! i"
        "l_lo L1 ! i = min (l_lo L ! i) (l_up L ! i)" "l_up L1 ! i = max (l_lo L ! i) (l_up L ! i)"
        using "1.prems" inside by (simp_all add: L1_def)
      have above: "l_lo L1 ! p = l_lo L ! p \<and> l_up L1 ! p = l_up L ! p" if "p \<noteq> i" for p
        using that by (simp add: L1_def)
      from "1.IH"(1) [OF inside free, folded L1_def, OF len]
      have IH: "indexed (i + 1) L1 (index_loop L1 (i + 1) (k + 1))" .
      show ?thesis
        unfolding run indexed_def
      proof (intro conjI allI impI)
        fix p assume "p < i"
        with IH below [of p] show "l_lo (index_loop L1 (i + 1) (k + 1)) ! p = l_lo L ! p"
          and "l_up (index_loop L1 (i + 1) (k + 1)) ! p = l_up L ! p"
          by (simp_all add: indexed_def)
      next
        fix p assume p: "i \<le> p \<and> p < length (l_msk L)"
        show "l_lo (index_loop L1 (i + 1) (k + 1)) ! p \<le> l_up (index_loop L1 (i + 1) (k + 1)) ! p"
        proof (cases "p = i")
          case True
          with IH here show ?thesis by (simp add: indexed_def)
        next
          case False
          with p IH show ?thesis by (simp add: indexed_def same)
        qed
        {
          assume isfree: "l_msk L ! p \<and> l_ref L ! p = []"
          show "l_lo (index_loop L1 (i + 1) (k + 1)) ! p = min (l_lo L ! p) (l_up L ! p)"
          proof (cases "p = i")
            case True
            with IH here show ?thesis by (simp add: indexed_def)
          next
            case False
            with p isfree IH above [of p] show ?thesis by (simp add: indexed_def same)
          qed
          show "l_up (index_loop L1 (i + 1) (k + 1)) ! p = max (l_lo L ! p) (l_up L ! p)"
          proof (cases "p = i")
            case True
            with IH here show ?thesis by (simp add: indexed_def)
          next
            case False
            with p isfree IH above [of p] show ?thesis by (simp add: indexed_def same)
          qed
        }
        assume pinned: "\<not> (l_msk L ! p \<and> l_ref L ! p = [])"
        with free have "p \<noteq> i" by auto
        with p pinned IH show "l_lo (index_loop L1 (i + 1) (k + 1)) ! p = 0"
          and "l_up (index_loop L1 (i + 1) (k + 1)) ! p = 0"
          by (simp_all add: indexed_def same)
      qed (use IH in \<open>simp_all add: indexed_def same\<close>)
    next
      case other: False
      define L1 where "L1 =
         L\<lparr>l_lo := (l_lo L)[i := 0], l_up := (l_up L)[i := 0], l_ind := l_ind L @ [0]\<rparr>"
      have run: "index_loop L i k = index_loop L1 (i + 1) k"
        by (subst unfold) (simp only: inside other if_True if_False simp_thms L1_def)
      have same: "l_msk L1 = l_msk L" "l_ref L1 = l_ref L" "l_sec L1 = l_sec L"
        "l_isc L1 = l_isc L" "l_val L1 = l_val L" "l_pim L1 = l_pim L" "l_sim L1 = l_sim L"
        by (simp_all add: L1_def)
      have len: "length (l_lo L1) = length (l_msk L1)" "length (l_up L1) = length (l_msk L1)"
        "length (l_ref L1) = length (l_msk L1)" "length (l_ind L1) = i + 1"
        "i + 1 \<le> length (l_msk L1)"
        using "1.prems" inside by (simp_all add: L1_def)
      have below: "l_lo L1 ! p = l_lo L ! p \<and> l_up L1 ! p = l_up L ! p" if "p < i" for p
        using that by (simp add: L1_def)
      have here: "l_lo L1 ! i = 0" "l_up L1 ! i = 0"
        using "1.prems" inside by (simp_all add: L1_def)
      have above: "l_lo L1 ! p = l_lo L ! p \<and> l_up L1 ! p = l_up L ! p" if "p \<noteq> i" for p
        using that by (simp add: L1_def)
      from "1.IH"(2) [OF inside other, folded L1_def, OF len]
      have IH: "indexed (i + 1) L1 (index_loop L1 (i + 1) k)" .
      show ?thesis
        unfolding run indexed_def
      proof (intro conjI allI impI)
        fix p assume "p < i"
        with IH below [of p] show "l_lo (index_loop L1 (i + 1) k) ! p = l_lo L ! p"
          and "l_up (index_loop L1 (i + 1) k) ! p = l_up L ! p"
          by (simp_all add: indexed_def)
      next
        fix p assume p: "i \<le> p \<and> p < length (l_msk L)"
        show "l_lo (index_loop L1 (i + 1) k) ! p \<le> l_up (index_loop L1 (i + 1) k) ! p"
        proof (cases "p = i")
          case True
          with IH here show ?thesis by (simp add: indexed_def)
        next
          case False
          with p IH show ?thesis by (simp add: indexed_def same)
        qed
        {
          assume isfree: "l_msk L ! p \<and> l_ref L ! p = []"
          with other have "p \<noteq> i" by auto
          with p isfree IH above [of p]
          show "l_lo (index_loop L1 (i + 1) k) ! p = min (l_lo L ! p) (l_up L ! p)"
            and "l_up (index_loop L1 (i + 1) k) ! p = max (l_lo L ! p) (l_up L ! p)"
            by (simp_all add: indexed_def same)
        }
        assume pinned: "\<not> (l_msk L ! p \<and> l_ref L ! p = [])"
        show "l_lo (index_loop L1 (i + 1) k) ! p = 0"
          and "l_up (index_loop L1 (i + 1) k) ! p = 0"
        proof -
          show "l_lo (index_loop L1 (i + 1) k) ! p = 0"
          proof (cases "p = i")
            case True
            with IH here show ?thesis by (simp add: indexed_def)
          next
            case False
            with p pinned IH show ?thesis by (simp add: indexed_def same)
          qed
          show "l_up (index_loop L1 (i + 1) k) ! p = 0"
          proof (cases "p = i")
            case True
            with IH here show ?thesis by (simp add: indexed_def)
          next
            case False
            with p pinned IH show ?thesis by (simp add: indexed_def same)
          qed
        qed
      qed (use IH in \<open>simp_all add: indexed_def same\<close>)
    qed
  qed
qed

subsection \<open>Dereferencing\<close>

lemma while_loop_result:
  assumes "while_loop body s = Some y"
    and "I s"
    and "\<And>s s'. I s \<Longrightarrow> body s = Continue s' \<Longrightarrow> I s'"
    and "\<And>s s'. I s \<Longrightarrow> body s = Done s' \<Longrightarrow> I s'"
  shows "\<forall>r. y = Inr r \<longrightarrow> I r"
  using assms(2-)
proof (induction rule: while_loop.raw_induct [OF _ assms(1)])
  case (1 wl b x y)
  show ?case
  proof (cases "b x")
    case (Done s')
    with "1.hyps"(1) have "y = Inr s'" by simp
    with "1.prems"(3) [OF "1.prems"(1) Done] show ?thesis by simp
  next
    case (Fail e)
    with "1.hyps"(1) show ?thesis by auto
  next
    case (Continue s')
    with "1.hyps"(1) have "wl b s' = Some y" by simp
    from "1.IH" [OF this "1.prems"(2) [OF "1.prems"(1) Continue] "1.prems"(2,3)]
    show ?thesis by simp
  qed
qed

lemma while_loop_rule:
  assumes "while_loop body s = Some (Inr r)"
    and "I s"
    and "\<And>s s'. I s \<Longrightarrow> body s = Continue s' \<Longrightarrow> I s'"
    and "\<And>s s'. I s \<Longrightarrow> body s = Done s' \<Longrightarrow> I s'"
  shows "I r"
  using while_loop_result [OF assms(1), where I = I] assms(2-) by blast

lemma deref_inv_copy:
  assumes inv: "deref_inv pc L1 L"
    and j: "j < length (l_ref L1)" and k: "k < length (l_ref L1)"
    and ref: "l_ref L ! j \<noteq> []"
  shows "deref_inv pc L1
           ((if l_ref L ! k = [] then copy_parameter k j L else L)
              \<lparr>l_ref := (l_ref L)[j := l_ref L ! k]\<rparr>)"
proof -
  let ?L' = "(if l_ref L ! k = [] then copy_parameter k j L else L)
              \<lparr>l_ref := (l_ref L)[j := l_ref L ! k]\<rparr>"
  from inv ref j have j1: "l_ref L1 ! j \<noteq> []"
    by (auto simp: deref_inv_def)
  have lo: "l_lo ?L' = (if l_ref L ! k = [] then (l_lo L)[j := l_lo L ! k] else l_lo L)"
    and up: "l_up ?L' = (if l_ref L ! k = [] then (l_up L)[j := l_up L ! k] else l_up L)"
    and rf: "l_ref ?L' = (l_ref L)[j := l_ref L ! k]"
    by (simp_all add: copy_parameter_def)
  have order: "l_lo ?L' ! p \<le> l_up ?L' ! p" if "p < length (l_ref L1)" for p
  proof -
    from inv that k have "l_lo L ! p \<le> l_up L ! p" and "l_lo L ! k \<le> l_up L ! k"
      by (simp_all add: deref_inv_def)
    moreover from inv that have "p < length (l_lo L)" and "p < length (l_up L)"
      by (simp_all add: deref_inv_def)
    ultimately show ?thesis
      unfolding lo up by (cases "p = j") simp_all
  qed
  have frame: "l_ref ?L' ! p = [] \<and> l_lo ?L' ! p = l_lo L1 ! p \<and> l_up ?L' ! p = l_up L1 ! p"
    if "p < length (l_ref L1)" and "l_ref L1 ! p = []" for p
  proof -
    from that j1 have "p \<noteq> j" by auto
    moreover from inv that have "l_ref L ! p = [] \<and> l_lo L ! p = l_lo L1 ! p \<and> l_up L ! p = l_up L1 ! p"
      by (simp add: deref_inv_def)
    ultimately show ?thesis
      unfolding lo up rf by simp
  qed
  have rest: "length (l_val ?L') = length (l_ref L1)" "length (l_lo ?L') = length (l_ref L1)"
    "length (l_up ?L') = length (l_ref L1)" "length (l_msk ?L') = length (l_ref L1)"
    "length (l_ind ?L') = length (l_ref L1)" "length (l_ref ?L') = length (l_ref L1)"
    "l_sim ?L' = l_sim L1" "l_pim ?L' = l_pim L1" "l_isc ?L' = l_isc L1"
    using inv by (simp_all add: deref_inv_def copy_parameter_def)
  from inv have ranges: "\<forall>(sid, v) \<in> set (l_sim L1). v < length (l_isc L1)"
    "\<forall>b \<in> set (l_isc L1). b < length (l_ref L1)"
    "\<forall>(lid, v) \<in> set (l_pim L1). v + pc \<le> length (l_ref L1)"
    by (simp_all add: deref_inv_def)
  show ?thesis
    unfolding deref_inv_def
    using rest ranges order frame by blast
qed

lemma deref_section_step_inv:
  assumes inv: "deref_inv pc L1 L" and j: "j < length (l_ref L1)"
    and step: "deref_section_step j L = Continue L' \<or> deref_section_step j L = Done L'"
  shows "deref_inv pc L1 L'"
proof (cases "deref_section_step j L = Done L'")
  case True
  then have "L' = L"
    by (auto simp: deref_section_step_def split: if_splits option.splits)
  with inv show ?thesis by simp
next
  case False
  with step have c: "deref_section_step j L = Continue L'" by simp
  then obtain v where ref: "l_ref L ! j \<noteq> []"
    and v: "map_of (l_sim L) (l_ref L ! j) = Some v"
    and L': "L' = (if l_ref L ! (l_isc L ! v) = [] then copy_parameter (l_isc L ! v) j L else L)
                    \<lparr>l_ref := (l_ref L)[j := l_ref L ! (l_isc L ! v)]\<rparr>"
    by (auto simp: deref_section_step_def split: if_splits option.splits)
  from v have "(l_ref L ! j, v) \<in> set (l_sim L)" by (rule map_of_SomeD)
  with inv have "v < length (l_isc L)" by (auto simp: deref_inv_def)
  then have "l_isc L ! v \<in> set (l_isc L)" by simp
  with inv have k: "l_isc L ! v < length (l_ref L1)" by (auto simp: deref_inv_def)
  show ?thesis
    unfolding L' using inv j k ref by (rule deref_inv_copy)
qed

lemma deref_sections_inv:
  assumes "deref_sections es L = Some (Inr L')" and "deref_inv pc L1 L"
    and "set es \<subseteq> set (l_sim L1)"
  shows "deref_inv pc L1 L'"
  using assms
proof (induction es arbitrary: L)
  case Nil
  then show ?case by simp
next
  case (Cons e es)
  obtain sid v where e: "e = (sid, v)" by (cases e)
  from Cons.prems(1) obtain La where
    loop: "while_loop (deref_section_step (l_isc L ! v)) L = Some (Inr La)"
    and rest: "deref_sections es La = Some (Inr L')"
    by (auto simp: e split: option.splits sum.splits)
  from Cons.prems(3) have "(sid, v) \<in> set (l_sim L1)" by (simp add: e)
  with Cons.prems(2) have "v < length (l_isc L)" by (auto simp: deref_inv_def)
  then have "l_isc L ! v \<in> set (l_isc L)" by simp
  with Cons.prems(2) have j: "l_isc L ! v < length (l_ref L1)" by (auto simp: deref_inv_def)
  have "deref_inv pc L1 La"
    by (rule while_loop_rule [OF loop, where I = "deref_inv pc L1"])
      (use Cons.prems(2) j in \<open>auto intro: deref_section_step_inv\<close>)
  from Cons.IH [OF rest this] Cons.prems(3) show ?case by simp
qed

lemma deref_line_step_inv:
  assumes inv: "deref_inv pc L1 L" and v: "v + pc \<le> length (l_ref L1)" and j: "j < pc"
    and step: "deref_line_step v j L = Continue L' \<or> deref_line_step v j L = Done L'"
  shows "deref_inv pc L1 L'"
proof (cases "deref_line_step v j L = Done L'")
  case True
  then have "L' = L"
    by (auto simp: deref_line_step_def split: if_splits option.splits)
  with inv show ?thesis by simp
next
  case False
  with step have c: "deref_line_step v j L = Continue L'" by simp
  then obtain v' where ref: "l_ref L ! (v + j) \<noteq> []"
    and v': "map_of (l_pim L) (l_ref L ! (v + j)) = Some v'"
    and L': "L' = (if l_ref L ! (v' + j) = [] then copy_parameter (v' + j) (v + j) L else L)
                    \<lparr>l_ref := (l_ref L)[v + j := l_ref L ! (v' + j)]\<rparr>"
    by (auto simp: deref_line_step_def split: if_splits option.splits)
  from v' have "(l_ref L ! (v + j), v') \<in> set (l_pim L)" by (rule map_of_SomeD)
  with inv have "v' + pc \<le> length (l_ref L1)" by (auto simp: deref_inv_def)
  with j have l: "v' + j < length (l_ref L1)" by simp
  from v j have k: "v + j < length (l_ref L1)" by simp
  show ?thesis
    unfolding L' using inv k l ref by (rule deref_inv_copy)
qed

lemma deref_line_inv:
  assumes "deref_line pc v j L = Some (Inr L')" and "deref_inv pc L1 L"
    and "v + pc \<le> length (l_ref L1)"
  shows "deref_inv pc L1 L'"
  using assms
proof (induction pc v j L rule: deref_line.induct)
  case (1 pc v j L)
  note unfold = deref_line.simps [of pc v j L]
  show ?case
  proof (cases "j < pc")
    case False
    with "1.prems"(1) unfold have "L' = L" by simp
    with "1.prems"(2) show ?thesis by simp
  next
    case True
    with "1.prems"(1) unfold obtain La where
      loop: "while_loop (deref_line_step v j) L = Some (Inr La)"
      and rest: "deref_line pc v (j + 1) La = Some (Inr L')"
      by (auto split: option.splits sum.splits)
    have "deref_inv pc L1 La"
      by (rule while_loop_rule [OF loop, where I = "deref_inv pc L1"])
        (use "1.prems" True in \<open>auto intro: deref_line_step_inv\<close>)
    from "1.IH" [OF True loop refl rest this "1.prems"(3)] show ?thesis .
  qed
qed

lemma deref_lines_inv:
  assumes "deref_lines pc es L = Some (Inr L')" and "deref_inv pc L1 L"
    and "set es \<subseteq> set (l_pim L1)"
  shows "deref_inv pc L1 L'"
  using assms
proof (induction es arbitrary: L)
  case Nil
  then show ?case by simp
next
  case (Cons e es)
  obtain lid v where e: "e = (lid, v)" by (cases e)
  from Cons.prems(1) obtain La where
    line: "deref_line pc v 0 L = Some (Inr La)"
    and rest: "deref_lines pc es La = Some (Inr L')"
    by (auto simp: e split: option.splits sum.splits)
  from Cons.prems(3) have "(lid, v) \<in> set (l_pim L1)" by (simp add: e)
  with Cons.prems(2) have "v + pc \<le> length (l_ref L1)" by (auto simp: deref_inv_def)
  from deref_line_inv [OF line Cons.prems(2) this] have "deref_inv pc L1 La" .
  from Cons.IH [OF rest this] Cons.prems(3) show ?case by simp
qed

subsection \<open>What dereferencing copies\<close>

lemma while_loop_post_result:
  assumes "while_loop body s = Some y"
    and "I s"
    and "\<And>s s'. I s \<Longrightarrow> body s = Continue s' \<Longrightarrow> I s'"
    and "\<And>s s'. I s \<Longrightarrow> body s = Done s' \<Longrightarrow> Q s'"
  shows "\<forall>r. y = Inr r \<longrightarrow> Q r"
  using assms(2-)
proof (induction rule: while_loop.raw_induct [OF _ assms(1)])
  case (1 wl b x y)
  show ?case
  proof (cases "b x")
    case (Done s')
    with "1.hyps"(1) have "y = Inr s'" by simp
    with "1.prems"(3) [OF "1.prems"(1) Done] show ?thesis by simp
  next
    case (Fail e)
    with "1.hyps"(1) show ?thesis by auto
  next
    case (Continue s')
    with "1.hyps"(1) have "wl b s' = Some y" by simp
    from "1.IH" [OF this "1.prems"(2) [OF "1.prems"(1) Continue] "1.prems"(2,3)]
    show ?thesis by simp
  qed
qed

lemma while_loop_post:
  assumes "while_loop body s = Some (Inr r)"
    and "I s"
    and "\<And>s s'. I s \<Longrightarrow> body s = Continue s' \<Longrightarrow> I s'"
    and "\<And>s s'. I s \<Longrightarrow> body s = Done s' \<Longrightarrow> Q s'"
  shows "Q r"
  using while_loop_post_result [OF assms(1), where I = I and Q = Q] assms(2-) by blast

lemma cleared_refl: "cleared L L"
  by (simp add: cleared_def)

lemma cleared_trans: "cleared L La \<Longrightarrow> cleared La Lb \<Longrightarrow> cleared L Lb"
  by (simp add: cleared_def)

text \<open>
  One round of a dereferencing loop for parameter \<open>k\<close>, whose reference names parameter \<open>l\<close>:
  the state it leaves, and what it has written.
\<close>

lemma step_ref:
  "l_ref ((if l_ref L ! l = [] then copy_parameter l k L else L)
            \<lparr>l_ref := (l_ref L)[k := l_ref L ! l]\<rparr>) = (l_ref L)[k := l_ref L ! l]"
  by (simp add: copy_parameter_def)

lemma step_parameter_other:
  assumes "p \<noteq> k"
  shows "parameter ((if l_ref L ! l = [] then copy_parameter l k L else L)
            \<lparr>l_ref := (l_ref L)[k := l_ref L ! l]\<rparr>) p = parameter L p"
  using assms by (simp add: parameter_def copy_parameter_def)

lemma step_parameter_copied:
  assumes "l_ref L ! l = []"
    and "k < length (l_val L)" "k < length (l_lo L)" "k < length (l_up L)"
    and "k < length (l_msk L)" "k < length (l_ind L)"
  shows "parameter ((if l_ref L ! l = [] then copy_parameter l k L else L)
            \<lparr>l_ref := (l_ref L)[k := l_ref L ! l]\<rparr>) k = parameter L l"
  using assms by (simp add: parameter_def copy_parameter_def)

lemma step_cleared:
  assumes "cleared La L" and "l_ref L ! k \<noteq> []"
  shows "cleared La ((if l_ref L ! l = [] then copy_parameter l k L else L)
            \<lparr>l_ref := (l_ref L)[k := l_ref L ! l]\<rparr>)"
proof -
  have "l_ref La ! p = [] \<longrightarrow> ((l_ref L)[k := l_ref L ! l]) ! p = []" for p
  proof (cases "p = k")
    case True
    with assms show ?thesis by (auto simp: cleared_def)
  next
    case False
    with assms(1) show ?thesis by (simp add: cleared_def)
  qed
  then show ?thesis
    unfolding cleared_def step_ref by blast
qed

lemma step_links_other:
  assumes "links_inv link K L1 L" and "k \<notin> K"
  shows "links_inv link K L1 ((if l_ref L ! l = [] then copy_parameter l k L else L)
            \<lparr>l_ref := (l_ref L)[k := l_ref L ! l]\<rparr>)"
proof -
  let ?L' = "(if l_ref L ! l = [] then copy_parameter l k L else L)
            \<lparr>l_ref := (l_ref L)[k := l_ref L ! l]\<rparr>"
  have "l_ref ?L' ! p = l_ref L ! p \<and> parameter ?L' p = parameter L p" if "p \<in> K" for p
  proof -
    from that assms(2) have "p \<noteq> k" by auto
    then show ?thesis
      using step_parameter_other [of p k L l] unfolding step_ref by simp
  qed
  with assms(1) show ?thesis
    unfolding links_inv_def by simp
qed

lemma step_links:
  assumes inv: "links_inv link K L1 L" and k: "k \<in> K" and l: "l \<in> K"
    and link: "link (l_ref L ! k) = Some l" and ref: "l_ref L ! k \<noteq> []"
    and len: "k < length (l_val L)" "k < length (l_lo L)" "k < length (l_up L)"
      "k < length (l_msk L)" "k < length (l_ind L)" "k < length (l_ref L)"
  shows "links_inv link K L1 ((if l_ref L ! l = [] then copy_parameter l k L else L)
            \<lparr>l_ref := (l_ref L)[k := l_ref L ! l]\<rparr>)"
proof -
  let ?L' = "(if l_ref L ! l = [] then copy_parameter l k L else L)
            \<lparr>l_ref := (l_ref L)[k := l_ref L ! l]\<rparr>"
  let ?R = "l_ref L1"
  from inv k ref link have via: "resolves link ?R l t \<Longrightarrow> resolves link ?R k t" for t
    unfolding links_inv_def by blast
  have refk: "l_ref ?L' ! k = l_ref L ! l"
    unfolding step_ref using len(6) by simp
  have at_k: "(l_ref ?L' ! k = [] \<longrightarrow>
           (\<exists>t. resolves link ?R k t \<and> parameter ?L' k = parameter L1 t)) \<and>
        (l_ref ?L' ! k \<noteq> [] \<longrightarrow>
           (\<forall>l' t. link (l_ref ?L' ! k) = Some l' \<longrightarrow> resolves link ?R l' t \<longrightarrow>
                  resolves link ?R k t))"
  proof (cases "l_ref L ! l = []")
    case True
    with inv l obtain t where t: "resolves link ?R l t" "parameter L l = parameter L1 t"
      unfolding links_inv_def by blast
    have "parameter ?L' k = parameter L l"
      using True len(1-5) by (rule step_parameter_copied)
    with t via [of t] True show ?thesis
      unfolding refk by auto
  next
    case False
    with inv l have "resolves link ?R l' t \<Longrightarrow> link (l_ref L ! l) = Some l' \<Longrightarrow>
        resolves link ?R l t" for l' t
      unfolding links_inv_def by blast
    with via False show ?thesis
      unfolding refk by blast
  qed
  have other: "l_ref ?L' ! p = l_ref L ! p \<and> parameter ?L' p = parameter L p" if "p \<noteq> k" for p
    using that step_parameter_other [of p k L l] unfolding step_ref by simp
  have "(l_ref ?L' ! p = [] \<longrightarrow>
           (\<exists>t. resolves link ?R p t \<and> parameter ?L' p = parameter L1 t)) \<and>
        (l_ref ?L' ! p \<noteq> [] \<longrightarrow>
           (\<forall>l' t. link (l_ref ?L' ! p) = Some l' \<longrightarrow> resolves link ?R l' t \<longrightarrow>
                  resolves link ?R p t))" if "p \<in> K" for p
  proof (cases "p = k")
    case True
    with at_k show ?thesis by simp
  next
    case False
    from inv that have "(l_ref L ! p = [] \<longrightarrow>
           (\<exists>t. resolves link ?R p t \<and> parameter L p = parameter L1 t)) \<and>
        (l_ref L ! p \<noteq> [] \<longrightarrow>
           (\<forall>l' t. link (l_ref L ! p) = Some l' \<longrightarrow> resolves link ?R l' t \<longrightarrow>
                  resolves link ?R p t))"
      unfolding links_inv_def by blast
    with other [OF False] show ?thesis by simp
  qed
  then show ?thesis
    unfolding links_inv_def by blast
qed

lemma step_frame:
  assumes "\<forall>p < n. l_ref L1 ! p = [] \<longrightarrow> parameter L p = parameter L1 p"
    and "l_ref L1 ! k \<noteq> []"
  shows "\<forall>p < n. l_ref L1 ! p = [] \<longrightarrow>
           parameter ((if l_ref L ! l = [] then copy_parameter l k L else L)
            \<lparr>l_ref := (l_ref L)[k := l_ref L ! l]\<rparr>) p = parameter L1 p"
proof (intro allI impI)
  fix p assume p: "p < n" "l_ref L1 ! p = []"
  with assms(2) have "p \<noteq> k" by auto
  from step_parameter_other [OF this, of L l] assms(1) p
  show "parameter ((if l_ref L ! l = [] then copy_parameter l k L else L)
            \<lparr>l_ref := (l_ref L)[k := l_ref L ! l]\<rparr>) p = parameter L1 p"
    by simp
qed

text \<open>The parameters of one kind lie in the vectors, and the kinds do not overlap.\<close>

lemma resolution_parameter_bound:
  assumes "aligned pc L1 n" and "k \<in> resolution_parameters L1"
  shows "k < n"
proof -
  from assms(2) obtain sid v where "(sid, v) \<in> set (l_sim L1)" and k: "k = l_isc L1 ! v"
    by (auto simp: resolution_parameters_def)
  with alignedD(7) [OF assms(1)] have "v < length (l_isc L1)" by blast
  then have "k \<in> set (l_isc L1)" by (simp add: k)
  with alignedD(8) [OF assms(1)] show ?thesis by blast
qed

lemma line_parameter_bound:
  assumes "aligned pc L1 n" and "j < pc" and "k \<in> line_parameters L1 j"
  shows "k < n"
proof -
  from assms(3) obtain lid v where "(lid, v) \<in> set (l_pim L1)" and k: "k = v + j"
    by (auto simp: line_parameters_def)
  with alignedD(9) [OF assms(1)] have "v + pc \<le> n" by blast
  with assms(2) show ?thesis by (simp add: k)
qed

lemma line_not_resolution:
  assumes "aligned pc L1 n" and "j < pc" and "k \<in> resolution_parameters L1"
  shows "k \<notin> line_parameters L1 j"
proof
  assume "k \<in> line_parameters L1 j"
  then obtain lid v where e: "(lid, v) \<in> set (l_pim L1)" and k: "k = v + j"
    by (auto simp: line_parameters_def)
  from assms(3) obtain sid w where "(sid, w) \<in> set (l_sim L1)" and k': "k = l_isc L1 ! w"
    by (auto simp: resolution_parameters_def)
  with alignedD(7) [OF assms(1)] have "w < length (l_isc L1)" by blast
  then have "k \<in> set (l_isc L1)" by (simp add: k')
  from alignedD(11) [OF assms(1) this e] have "k < v \<or> v + pc \<le> k" .
  with assms(2) show False by (simp add: k)
qed

lemma line_parameters_disjoint:
  assumes "aligned pc L1 n" and "j < pc" and "j' < pc" and "j \<noteq> j'"
    and "k \<in> line_parameters L1 j"
  shows "k \<notin> line_parameters L1 j'"
proof
  assume "k \<in> line_parameters L1 j'"
  then obtain lid' v' where e': "(lid', v') \<in> set (l_pim L1)" and k': "k = v' + j'"
    by (auto simp: line_parameters_def)
  from assms(5) obtain lid v where e: "(lid, v) \<in> set (l_pim L1)" and k: "k = v + j"
    by (auto simp: line_parameters_def)
  from alignedD(10) [OF assms(1) e e'] have "v = v' \<or> v + pc \<le> v' \<or> v' + pc \<le> v" .
  with assms(2-4) k k' show False by auto
qed

lemma resolves_ends:
  assumes "resolves link refs k t" and "k \<in> K" and "\<And>r l. link r = Some l \<Longrightarrow> l \<in> K"
  shows "t \<in> K \<and> refs ! t = []"
  using assms by (induction rule: resolves.induct) auto

lemma section_link_in:
  assumes "section_link (l_sim L1) (l_isc L1) r = Some l"
  shows "l \<in> resolution_parameters L1"
proof -
  from assms obtain v where "map_of (l_sim L1) r = Some v" and "l = l_isc L1 ! v"
    by (auto simp: section_link_def)
  then show ?thesis
    by (auto simp: resolution_parameters_def dest: map_of_SomeD)
qed

lemma line_link_in:
  assumes "line_link (l_pim L1) j r = Some l"
  shows "l \<in> line_parameters L1 j"
proof -
  from assms obtain v where "map_of (l_pim L1) r = Some v" and "l = v + j"
    by (auto simp: line_link_def)
  then show ?thesis
    by (auto simp: line_parameters_def dest: map_of_SomeD)
qed

lemma links_holdD:
  assumes "links_hold pc L1 L"
  shows "deref_inv pc L1 L"
    and "\<forall>p < length (l_ref L1). l_ref L1 ! p = [] \<longrightarrow> parameter L p = parameter L1 p"
    and "links_inv (section_link (l_sim L1) (l_isc L1)) (resolution_parameters L1) L1 L"
    and "\<And>j. j < pc \<Longrightarrow> links_inv (line_link (l_pim L1) j) (line_parameters L1 j) L1 L"
  using assms unfolding links_hold_def by blast+

lemma deref_invD:
  assumes "deref_inv pc L1 L"
  shows "length (l_val L) = length (l_ref L1)" "length (l_lo L) = length (l_ref L1)"
    "length (l_up L) = length (l_ref L1)" "length (l_msk L) = length (l_ref L1)"
    "length (l_ind L) = length (l_ref L1)" "length (l_ref L) = length (l_ref L1)"
    "l_sim L = l_sim L1" "l_pim L = l_pim L1" "l_isc L = l_isc L1"
    and "\<And>p. p < length (l_ref L1) \<Longrightarrow> l_ref L1 ! p = [] \<Longrightarrow> l_ref L ! p = []"
  using assms unfolding deref_inv_def by blast+

text \<open>One round of the loop for a resolution parameter.\<close>

lemma deref_section_step_links:
  assumes inv: "links_hold pc L1 L" and al: "aligned pc L1 n"
    and k: "k \<in> resolution_parameters L1"
    and step: "deref_section_step k L = Continue L'"
  shows "links_hold pc L1 L'" and "cleared La L \<Longrightarrow> cleared La L'"
proof -
  note h = links_holdD [OF inv]
  note d = deref_invD [OF h(1)]
  from alignedD(5) [OF al] have n: "length (l_ref L1) = n" .
  from step obtain v where ref: "l_ref L ! k \<noteq> []"
    and v: "map_of (l_sim L) (l_ref L ! k) = Some v"
    and L': "L' = (if l_ref L ! (l_isc L ! v) = [] then copy_parameter (l_isc L ! v) k L else L)
                    \<lparr>l_ref := (l_ref L)[k := l_ref L ! (l_isc L ! v)]\<rparr>"
    by (auto simp: deref_section_step_def split: if_splits option.splits)
  define l where "l = l_isc L ! v"
  have link: "section_link (l_sim L1) (l_isc L1) (l_ref L ! k) = Some l"
    using v by (simp add: section_link_def l_def d(7,9))
  then have l: "l \<in> resolution_parameters L1" by (rule section_link_in)
  from resolution_parameter_bound [OF al k] have kn: "k < length (l_ref L1)" by (simp add: n)
  with d(10) [of k] ref have ref1: "l_ref L1 ! k \<noteq> []" by auto
  have L'': "L' = (if l_ref L ! l = [] then copy_parameter l k L else L)
                    \<lparr>l_ref := (l_ref L)[k := l_ref L ! l]\<rparr>"
    unfolding L' l_def ..
  have "deref_inv pc L1 L'"
    using h(1) kn step by (intro deref_section_step_inv [of pc L1 L k L']) simp_all
  moreover have "\<forall>p < length (l_ref L1). l_ref L1 ! p = [] \<longrightarrow> parameter L' p = parameter L1 p"
    unfolding L'' using h(2) ref1 by (rule step_frame)
  moreover have "links_inv (section_link (l_sim L1) (l_isc L1)) (resolution_parameters L1) L1 L'"
    unfolding L'' using h(3) k l link ref kn by (intro step_links) (simp_all add: d)
  moreover have "links_inv (line_link (l_pim L1) j) (line_parameters L1 j) L1 L'" if "j < pc" for j
    unfolding L'' using h(4) [OF that] line_not_resolution [OF al that k] by (rule step_links_other)
  ultimately show "links_hold pc L1 L'"
    unfolding links_hold_def by blast
  show "cleared La L'" if "cleared La L"
    unfolding L'' using that ref by (rule step_cleared)
qed

lemma deref_section_step_Done:
  assumes "deref_section_step k L = Done L'"
  shows "L' = L \<and> l_ref L ! k = []"
  using assms by (auto simp: deref_section_step_def split: if_splits option.splits)

lemma deref_sections_links:
  assumes "deref_sections es L = Some (Inr L')" and "links_hold pc L1 L"
    and "aligned pc L1 n" and "set es \<subseteq> set (l_sim L1)"
  shows "links_hold pc L1 L' \<and> cleared L L' \<and>
         (\<forall>(sid, v) \<in> set es. l_ref L' ! (l_isc L1 ! v) = [])"
  using assms
proof (induction es arbitrary: L)
  case Nil
  then show ?case by (simp add: cleared_refl)
next
  case (Cons e es)
  obtain sid v where e: "e = (sid, v)" by (cases e)
  from Cons.prems(1) obtain La where
    loop: "while_loop (deref_section_step (l_isc L ! v)) L = Some (Inr La)"
    and rest: "deref_sections es La = Some (Inr L')"
    by (auto simp: e split: option.splits sum.splits)
  define k where "k = l_isc L1 ! v"
  from Cons.prems(2) have "l_isc L = l_isc L1"
    by (simp add: links_hold_def deref_inv_def)
  with loop have loop': "while_loop (deref_section_step k) L = Some (Inr La)"
    by (simp add: k_def)
  from Cons.prems(4) have "(sid, v) \<in> set (l_sim L1)" by (simp add: e)
  then have k: "k \<in> resolution_parameters L1"
    by (auto simp: resolution_parameters_def k_def)
  have a: "links_hold pc L1 La \<and> cleared L La \<and> l_ref La ! k = []"
  proof (rule while_loop_post [OF loop', where I = "\<lambda>s. links_hold pc L1 s \<and> cleared L s"])
    show "links_hold pc L1 L \<and> cleared L L"
      using Cons.prems(2) by (simp add: cleared_refl)
  next
    fix s s'
    assume "links_hold pc L1 s \<and> cleared L s" and "deref_section_step k s = Continue s'"
    then show "links_hold pc L1 s' \<and> cleared L s'"
      using deref_section_step_links(1) [OF _ Cons.prems(3) k, where L = s and L' = s']
        deref_section_step_links(2) [OF _ Cons.prems(3) k, where L = s and L' = s' and La = L]
      by blast
  next
    fix s s'
    assume "links_hold pc L1 s \<and> cleared L s" and "deref_section_step k s = Done s'"
    then show "links_hold pc L1 s' \<and> cleared L s' \<and> l_ref s' ! k = []"
      using deref_section_step_Done [of k s s'] by auto
  qed
  from Cons.prems(4) have "set es \<subseteq> set (l_sim L1)" by simp
  from Cons.IH [OF rest _ Cons.prems(3) this] a
  have b: "links_hold pc L1 L'" "cleared La L'"
    "\<forall>(sid, v) \<in> set es. l_ref L' ! (l_isc L1 ! v) = []"
    by simp_all
  from a b(2) have "cleared L L'" by (blast intro: cleared_trans)
  moreover from a b(2) have "l_ref L' ! (l_isc L1 ! v) = []"
    by (simp add: cleared_def k_def)
  ultimately show ?case using b(1,3) by (simp add: e)
qed

text \<open>One round of the loop for parameter \<open>j\<close> of a line.\<close>

lemma deref_line_step_links:
  assumes inv: "links_hold pc L1 L" and al: "aligned pc L1 n"
    and e: "(lid, v) \<in> set (l_pim L1)" and j: "j < pc"
    and step: "deref_line_step v j L = Continue L'"
  shows "links_hold pc L1 L'" and "cleared La L \<Longrightarrow> cleared La L'"
proof -
  note h = links_holdD [OF inv]
  note d = deref_invD [OF h(1)]
  from alignedD(5) [OF al] have n: "length (l_ref L1) = n" .
  define k where "k = v + j"
  from step obtain v' where ref: "l_ref L ! k \<noteq> []"
    and v': "map_of (l_pim L) (l_ref L ! k) = Some v'"
    and L': "L' = (if l_ref L ! (v' + j) = [] then copy_parameter (v' + j) k L else L)
                    \<lparr>l_ref := (l_ref L)[k := l_ref L ! (v' + j)]\<rparr>"
    by (auto simp: deref_line_step_def k_def split: if_splits option.splits)
  define l where "l = v' + j"
  have k: "k \<in> line_parameters L1 j"
    using e by (auto simp: line_parameters_def k_def)
  have link: "line_link (l_pim L1) j (l_ref L ! k) = Some l"
    using v' by (simp add: line_link_def l_def d(8))
  then have l: "l \<in> line_parameters L1 j" by (rule line_link_in)
  from line_parameter_bound [OF al j k] have kn: "k < length (l_ref L1)" by (simp add: n)
  with d(10) [of k] ref have ref1: "l_ref L1 ! k \<noteq> []" by auto
  have L'': "L' = (if l_ref L ! l = [] then copy_parameter l k L else L)
                    \<lparr>l_ref := (l_ref L)[k := l_ref L ! l]\<rparr>"
    unfolding L' l_def ..
  from alignedD(9) [OF al e] have vn: "v + pc \<le> length (l_ref L1)" by (simp add: n)
  have "deref_inv pc L1 L'"
    using h(1) vn j step by (intro deref_line_step_inv [of pc L1 L v j L']) simp_all
  moreover have "\<forall>p < length (l_ref L1). l_ref L1 ! p = [] \<longrightarrow> parameter L' p = parameter L1 p"
    unfolding L'' using h(2) ref1 by (rule step_frame)
  moreover have "links_inv (section_link (l_sim L1) (l_isc L1)) (resolution_parameters L1) L1 L'"
  proof -
    have "k \<notin> resolution_parameters L1"
      using line_not_resolution [OF al j, of k] k by blast
    with h(3) show ?thesis unfolding L'' by (rule step_links_other)
  qed
  moreover have "links_inv (line_link (l_pim L1) j') (line_parameters L1 j') L1 L'"
    if "j' < pc" for j'
  proof (cases "j' = j")
    case True
    show ?thesis
      unfolding L'' True using h(4) [OF j] k l link ref kn
      by (intro step_links) (simp_all add: d)
  next
    case False
    then have "k \<notin> line_parameters L1 j'"
      using line_parameters_disjoint [OF al j that _ k] by blast
    with h(4) [OF that] show ?thesis unfolding L'' by (rule step_links_other)
  qed
  ultimately show "links_hold pc L1 L'"
    unfolding links_hold_def by blast
  show "cleared La L'" if "cleared La L"
    unfolding L'' using that ref by (rule step_cleared)
qed

lemma deref_line_step_Done:
  assumes "deref_line_step v j L = Done L'"
  shows "L' = L \<and> l_ref L ! (v + j) = []"
  using assms by (auto simp: deref_line_step_def split: if_splits option.splits)

lemma deref_line_links:
  assumes "deref_line pc v j L = Some (Inr L')" and "links_hold pc L1 L"
    and "aligned pc L1 n" and "(lid, v) \<in> set (l_pim L1)"
  shows "links_hold pc L1 L' \<and> cleared L L' \<and>
         (\<forall>j'. j \<le> j' \<and> j' < pc \<longrightarrow> l_ref L' ! (v + j') = [])"
  using assms
proof (induction pc v j L rule: deref_line.induct)
  case (1 pc v j L)
  note unfold = deref_line.simps [of pc v j L]
  show ?case
  proof (cases "j < pc")
    case False
    with "1.prems"(1) unfold have "L' = L" by simp
    with "1.prems"(2) False show ?thesis by (auto simp: cleared_refl)
  next
    case True
    with "1.prems"(1) unfold obtain La where
      loop: "while_loop (deref_line_step v j) L = Some (Inr La)"
      and rest: "deref_line pc v (j + 1) La = Some (Inr L')"
      by (auto split: option.splits sum.splits)
    have a: "links_hold pc L1 La \<and> cleared L La \<and> l_ref La ! (v + j) = []"
    proof (rule while_loop_post [OF loop, where I = "\<lambda>s. links_hold pc L1 s \<and> cleared L s"])
      show "links_hold pc L1 L \<and> cleared L L"
        using "1.prems"(2) by (simp add: cleared_refl)
    next
      fix s s'
      assume "links_hold pc L1 s \<and> cleared L s" and "deref_line_step v j s = Continue s'"
      then show "links_hold pc L1 s' \<and> cleared L s'"
        using deref_line_step_links(1) [OF _ "1.prems"(3,4) True, where L = s and L' = s']
          deref_line_step_links(2) [OF _ "1.prems"(3,4) True, where L = s and L' = s' and La = L]
        by blast
    next
      fix s s'
      assume "links_hold pc L1 s \<and> cleared L s" and "deref_line_step v j s = Done s'"
      then show "links_hold pc L1 s' \<and> cleared L s' \<and> l_ref s' ! (v + j) = []"
        using deref_line_step_Done [of v j s s'] by auto
    qed
    from "1.IH" [OF True loop refl rest _ "1.prems"(3,4)] a
    have b: "links_hold pc L1 L'" "cleared La L'"
      "\<forall>j'. j + 1 \<le> j' \<and> j' < pc \<longrightarrow> l_ref L' ! (v + j') = []"
      by simp_all
    from a b(2) have c: "cleared L L'" by (blast intro: cleared_trans)
    from a b(2) have here: "l_ref L' ! (v + j) = []" by (simp add: cleared_def)
    have "l_ref L' ! (v + j') = []" if "j \<le> j' \<and> j' < pc" for j'
    proof (cases "j' = j")
      case True
      with here show ?thesis by simp
    next
      case False
      with that have "j + 1 \<le> j' \<and> j' < pc" by simp
      with b(3) show ?thesis by blast
    qed
    with b(1) c show ?thesis by blast
  qed
qed

lemma deref_lines_links:
  assumes "deref_lines pc es L = Some (Inr L')" and "links_hold pc L1 L"
    and "aligned pc L1 n" and "set es \<subseteq> set (l_pim L1)"
  shows "links_hold pc L1 L' \<and> cleared L L' \<and>
         (\<forall>(lid, v) \<in> set es. \<forall>j < pc. l_ref L' ! (v + j) = [])"
  using assms
proof (induction es arbitrary: L)
  case Nil
  then show ?case by (simp add: cleared_refl)
next
  case (Cons e es)
  obtain lid v where e: "e = (lid, v)" by (cases e)
  from Cons.prems(1) obtain La where
    line: "deref_line pc v 0 L = Some (Inr La)"
    and rest: "deref_lines pc es La = Some (Inr L')"
    by (auto simp: e split: option.splits sum.splits)
  from Cons.prems(4) have "(lid, v) \<in> set (l_pim L1)" by (simp add: e)
  from deref_line_links [OF line Cons.prems(2,3) this]
  have a: "links_hold pc L1 La" "cleared L La" "\<forall>j < pc. l_ref La ! (v + j) = []"
    by simp_all
  from Cons.prems(4) have "set es \<subseteq> set (l_pim L1)" by simp
  from Cons.IH [OF rest a(1) Cons.prems(3) this]
  have b: "links_hold pc L1 L'" "cleared La L'"
    "\<forall>(lid, v) \<in> set es. \<forall>j < pc. l_ref L' ! (v + j) = []"
    by simp_all
  from a(2) b(2) have "cleared L L'" by (rule cleared_trans)
  moreover from a(3) b(2) have "\<forall>j < pc. l_ref L' ! (v + j) = []"
    by (simp add: cleared_def)
  ultimately show ?case using b(1,3) by (simp add: e)
qed

text \<open>Before dereferencing starts, every reference is the one of the input.\<close>

lemma links_inv_start: "links_inv link K L1 L1"
  unfolding links_inv_def by (blast intro: resolves.intros)

lemma links_hold_start:
  assumes "deref_inv pc L1 L1"
  shows "links_hold pc L1 L1"
  unfolding links_hold_def using assms by (simp add: links_inv_start)

subsection \<open>The bounds after a successful \<open>get\<close>\<close>

lemma step_sizes_nonnegative:
  assumes "\<forall>p < length (msk m). lo m ! p \<le> up m ! p" and "\<forall>z \<in> set z0. 0 \<le> z"
  shows "\<forall>z \<in> set (initial_local_step_sizes_loop m z0 i j). 0 \<le> z"
  using assms
proof (induction m z0 i j rule: initial_local_step_sizes_loop.induct)
  case (1 m z0 i j)
  note unfold = initial_local_step_sizes_loop.simps [of m z0 i j]
  show ?case
  proof (cases "i < length (msk m)")
    case False
    with "1.prems"(2) unfold show ?thesis by simp
  next
    case inside: True
    show ?thesis
    proof (cases "msk m ! i \<and> ind m ! i = j")
      case True
      from "1.prems"(1) inside have "0 \<le> 0.5 * (up m ! i - lo m ! i)" by simp
      with "1.prems"(2) have "\<forall>z \<in> set (z0[j := 0.5 * (up m ! i - lo m ! i)]). 0 \<le> z"
        using set_update_subset_insert [of z0 j "0.5 * (up m ! i - lo m ! i)"] by auto
      from "1.IH"(1) [OF inside True "1.prems"(1) this] show ?thesis
        by (subst unfold) (simp add: inside True)
    next
      case False
      from "1.IH"(2) [OF inside False "1.prems"] show ?thesis
        by (subst unfold) (simp only: inside False if_True if_False simp_thms)
    qed
  qed
qed

lemma get_success:
  assumes "get env pc chunks ios m = Some (None, ios', m')"
  obtains L i La Lb where "get_chunks env pc chunks empty_locals 0 = Inr (L, i)"
    and "deref_sections (l_sim L) (index_loop L 0 0) = Some (Inr La)"
    and "deref_lines pc (l_pim La) La = Some (Inr Lb)"
    and "m' = store Lb m"
  using assms
  by (auto simp: get_def split: sum.splits option.splits prod.splits)

lemma aligned_indexed:
  assumes "aligned pc L n" and "indexed 0 L L1"
  shows "aligned pc L1 n"
proof -
  note a = alignedD [OF assms(1)]
  from assms(2) have f: "l_sec L1 = l_sec L" "l_isc L1 = l_isc L" "l_val L1 = l_val L"
    "l_msk L1 = l_msk L" "l_ref L1 = l_ref L" "l_pim L1 = l_pim L" "l_sim L1 = l_sim L"
    "length (l_lo L1) = length (l_msk L)" "length (l_up L1) = length (l_msk L)"
    unfolding indexed_def by blast+
  show ?thesis
  proof (rule alignedI)
    show "length (l_val L1) = n" "length (l_lo L1) = n" "length (l_up L1) = n"
      "length (l_msk L1) = n" "length (l_ref L1) = n" "length (l_sec L1) = length (l_isc L1)"
      using a(1-6) by (simp_all add: f)
    show "v < length (l_isc L1)" if "(sid, v) \<in> set (l_sim L1)" for sid v
      using that a(7) [of sid v] by (simp add: f)
    show "b < n" if "b \<in> set (l_isc L1)" for b
      using that a(8) [of b] by (simp add: f)
    show "v + pc \<le> n" if "(lid, v) \<in> set (l_pim L1)" for lid v
      using that a(9) [of lid v] by (simp add: f)
    show "v = v' \<or> v + pc \<le> v' \<or> v' + pc \<le> v"
      if "(lid, v) \<in> set (l_pim L1)" and "(lid', v') \<in> set (l_pim L1)" for lid v lid' v'
      using that a(10) [of lid v lid' v'] by (simp add: f)
    show "b < v \<or> v + pc \<le> b" if "b \<in> set (l_isc L1)" and "(lid, v) \<in> set (l_pim L1)"
      for b lid v
      using that a(11) [of b lid v] by (simp add: f)
  qed
qed

text \<open>
  A parameter whose reference has been cleared holds the entries of the parameter in which
  its references end.
\<close>

lemma links_end:
  assumes hold: "links_hold pc L1 Lb" and n: "length (l_ref L1) = n"
    and inv: "links_inv link K L1 Lb"
    and k: "k \<in> K" and closed: "\<And>r l. link r = Some l \<Longrightarrow> l \<in> K"
    and bound: "\<And>p. p \<in> K \<Longrightarrow> p < n"
    and empty: "l_ref Lb ! k = []"
  shows "\<exists>t < n. l_ref L1 ! t = [] \<and> resolves link (l_ref L1) k t \<and>
           parameter Lb k = parameter Lb t"
proof -
  from inv k empty obtain t where t: "resolves link (l_ref L1) k t"
    and p: "parameter Lb k = parameter L1 t"
    unfolding links_inv_def by blast
  from resolves_ends [OF t k closed] have "t \<in> K" and r: "l_ref L1 ! t = []" by simp_all
  with bound have tn: "t < n" by blast
  with links_holdD(2) [OF hold] r n have "parameter Lb t = parameter L1 t" by simp
  with p t r tn show ?thesis by auto
qed

lemma model_parameter_store: "model_parameter (store L m) p = parameter L p"
  by (simp add: model_parameter_def parameter_def store_def)

text \<open>
  C10, amended. After \<open>get\<close> has returned successfully, every parameter has
  \<open>lo[i] \<le> up[i]\<close>: a parameter that is free and not linked has the bounds given for it,
  put in order; a parameter that is pinned and not linked has \<open>lo[i] = up[i] = 0\<close>; a
  linked parameter (a resolution parameter, or parameter \<open>j\<close> of a line) has the value,
  bounds, mask and index of the parameter \<open>t\<close> in which its references end, which is not
  linked. Consequently every initial local step size of a model that has parameters is
  non-negative; for a model without parameters \<open>get_initial_local_step_sizes\<close> is
  undefined.
\<close>

theorem get_bounds_in_order:
  assumes "get env pc chunks ios m = Some (None, ios', m')"
  shows "length (lo m') = length (parameter_specs chunks)
    \<and> (\<forall>i < length (lo m'). lo m' ! i \<le> up m' ! i)
    \<and> (\<forall>i < length (lo m').
          s_msk (parameter_specs chunks ! i) \<and> s_ref (parameter_specs chunks ! i) = [] \<longrightarrow>
          lo m' ! i = min (s_lo (parameter_specs chunks ! i)) (s_up (parameter_specs chunks ! i)) \<and>
          up m' ! i = max (s_lo (parameter_specs chunks ! i)) (s_up (parameter_specs chunks ! i)))
    \<and> (\<forall>i < length (lo m').
          \<not> s_msk (parameter_specs chunks ! i) \<and> s_ref (parameter_specs chunks ! i) = [] \<longrightarrow>
          lo m' ! i = 0 \<and> up m' ! i = 0)
    \<and> (\<forall>(sid, v) \<in> set (sim m').
          \<exists>t < length (lo m'). s_ref (parameter_specs chunks ! t) = [] \<and>
            resolves (section_link (sim m') (isc m')) (map s_ref (parameter_specs chunks))
              (isc m' ! v) t \<and>
            model_parameter m' (isc m' ! v) = model_parameter m' t)
    \<and> (\<forall>(lid, v) \<in> set (pim m'). \<forall>j < pc.
          \<exists>t < length (lo m'). s_ref (parameter_specs chunks ! t) = [] \<and>
            resolves (line_link (pim m') j) (map s_ref (parameter_specs chunks)) (v + j) t \<and>
            model_parameter m' (v + j) = model_parameter m' t)
    \<and> (parameter_specs chunks \<noteq> [] \<longrightarrow>
          (\<exists>z. get_initial_local_step_sizes m' = Some z \<and> (\<forall>x \<in> set z. 0 \<le> x)))
    \<and> (parameter_specs chunks = [] \<longrightarrow> get_initial_local_step_sizes m' = None)"
proof -
  let ?specs = "parameter_specs chunks"
  from assms obtain L i La Lb where
    chunks: "get_chunks env pc chunks empty_locals 0 = Inr (L, i)"
    and sections: "deref_sections (l_sim L) (index_loop L 0 0) = Some (Inr La)"
    and lines: "deref_lines pc (l_pim La) La = Some (Inr Lb)"
    and m': "m' = store Lb m"
    by (rule get_success)
  define L1 where "L1 = index_loop L 0 0"
  note parsed = get_chunks_parameters [OF chunks]
  note al = alignedD [OF parsed(1)]
  from al have len: "length (l_lo L) = length (l_msk L)" "length (l_up L) = length (l_msk L)"
    "length (l_ref L) = length (l_msk L)" "length (l_val L) = length (l_msk L)"
    by simp_all
  from parsed(2) have n: "length (l_msk L) = length ?specs" by simp
  with al(4) have i: "i = length ?specs" by simp
  have idx: "indexed 0 L L1"
    unfolding L1_def using len(1-3) parsed(4) by (intro index_loop_indexed) simp_all
  then have L1: "l_ref L1 = l_ref L" "l_msk L1 = l_msk L" "l_sim L1 = l_sim L"
    "l_pim L1 = l_pim L" "l_isc L1 = l_isc L" "l_val L1 = l_val L"
    "length (l_lo L1) = length ?specs" "length (l_up L1) = length ?specs"
    "length (l_ind L1) = length ?specs"
    by (simp_all add: indexed_def n)
  have refs: "l_ref L1 = map s_ref ?specs" by (simp add: L1 parsed(3))
  have rn: "length (l_ref L1) = length ?specs" by (simp add: refs)
  have al1: "aligned pc L1 (length ?specs)"
    using parsed(1) idx unfolding i by (rule aligned_indexed)
  have start: "deref_inv pc L1 L1"
    unfolding deref_inv_def
    using idx al len n by (auto simp: L1 indexed_def)
  have sections': "deref_sections (l_sim L1) L1 = Some (Inr La)"
    unfolding L1(3) unfolding L1_def by (rule sections)
  from deref_sections_inv [OF sections' start] have a: "deref_inv pc L1 La" by simp
  then have pim_a: "l_pim La = l_pim L1" by (simp add: deref_inv_def)
  with lines have lines': "deref_lines pc (l_pim L1) La = Some (Inr Lb)" by simp
  from deref_lines_inv [OF lines' a] have b: "deref_inv pc L1 Lb" by simp
  from deref_sections_links [OF sections' links_hold_start [OF start] al1]
  have ha: "links_hold pc L1 La"
    and ca: "\<forall>(sid, v) \<in> set (l_sim L1). l_ref La ! (l_isc L1 ! v) = []"
    by simp_all
  from deref_lines_links [OF lines' ha al1]
  have hb: "links_hold pc L1 Lb" and cb: "cleared La Lb"
    and cl: "\<forall>(lid, v) \<in> set (l_pim L1). \<forall>j < pc. l_ref Lb ! (v + j) = []"
    by simp_all
  from ca cb have cs: "\<forall>(sid, v) \<in> set (l_sim L1). l_ref Lb ! (l_isc L1 ! v) = []"
    by (auto simp: cleared_def)
  have fields: "lo m' = l_lo Lb" "up m' = l_up Lb" "msk m' = l_msk Lb" "ind m' = l_ind Lb"
    "sim m' = l_sim L1" "pim m' = l_pim L1" "isc m' = l_isc L1"
    using deref_invD(7-9) [OF b] by (simp_all add: m' store_def)
  from b have lens: "length (l_lo Lb) = length ?specs" "length (l_up Lb) = length ?specs"
    "length (l_msk Lb) = length ?specs" "length (l_ind Lb) = length ?specs"
    by (simp_all add: deref_inv_def L1 len n)
  from b have order: "l_lo Lb ! p \<le> l_up Lb ! p" if "p < length ?specs" for p
    using that by (simp add: deref_inv_def L1 len n)
  from b have frame: "l_lo Lb ! p = l_lo L1 ! p \<and> l_up Lb ! p = l_up L1 ! p"
    if "p < length ?specs" and "s_ref (?specs ! p) = []" for p
    using that by (simp add: deref_inv_def L1 len n parsed(3))
  have free: "l_lo Lb ! p = min (s_lo (?specs ! p)) (s_up (?specs ! p)) \<and>
              l_up Lb ! p = max (s_lo (?specs ! p)) (s_up (?specs ! p))"
    if "p < length ?specs" and "s_msk (?specs ! p)" and "s_ref (?specs ! p) = []" for p
    using that idx frame [of p] by (simp add: indexed_def n parsed)
  have pinned: "l_lo Lb ! p = 0 \<and> l_up Lb ! p = 0"
    if "p < length ?specs" and "\<not> s_msk (?specs ! p)" and "s_ref (?specs ! p) = []" for p
    using that idx frame [of p] by (simp add: indexed_def n parsed)
  have resolution: "\<exists>t < length ?specs. s_ref (?specs ! t) = [] \<and>
      resolves (section_link (l_sim L1) (l_isc L1)) (map s_ref ?specs) (l_isc L1 ! v) t \<and>
      model_parameter m' (l_isc L1 ! v) = model_parameter m' t"
    if "(sid, v) \<in> set (l_sim L1)" for sid v
  proof -
    from that have k: "l_isc L1 ! v \<in> resolution_parameters L1"
      by (auto simp: resolution_parameters_def)
    from that cs have e: "l_ref Lb ! (l_isc L1 ! v) = []" by auto
    have "\<exists>t < length ?specs. l_ref L1 ! t = [] \<and>
        resolves (section_link (l_sim L1) (l_isc L1)) (l_ref L1) (l_isc L1 ! v) t \<and>
        parameter Lb (l_isc L1 ! v) = parameter Lb t"
    proof (rule links_end [OF hb rn links_holdD(3) [OF hb] k _ _ e])
      show "l \<in> resolution_parameters L1"
        if "section_link (l_sim L1) (l_isc L1) r = Some l" for r l
        using that by (rule section_link_in)
      show "p < length ?specs" if "p \<in> resolution_parameters L1" for p
        using al1 that by (rule resolution_parameter_bound)
    qed
    then obtain t where "t < length ?specs" "l_ref L1 ! t = []"
      "resolves (section_link (l_sim L1) (l_isc L1)) (l_ref L1) (l_isc L1 ! v) t"
      "parameter Lb (l_isc L1 ! v) = parameter Lb t"
      by blast
    then show ?thesis
      unfolding m' model_parameter_store refs by auto
  qed
  have line: "\<exists>t < length ?specs. s_ref (?specs ! t) = [] \<and>
      resolves (line_link (l_pim L1) j) (map s_ref ?specs) (v + j) t \<and>
      model_parameter m' (v + j) = model_parameter m' t"
    if entry: "(lid, v) \<in> set (l_pim L1)" and j: "j < pc" for lid v j
  proof -
    from entry have k: "v + j \<in> line_parameters L1 j"
      by (auto simp: line_parameters_def)
    from entry j cl have e: "l_ref Lb ! (v + j) = []" by auto
    have "\<exists>t < length ?specs. l_ref L1 ! t = [] \<and>
        resolves (line_link (l_pim L1) j) (l_ref L1) (v + j) t \<and>
        parameter Lb (v + j) = parameter Lb t"
    proof (rule links_end [OF hb rn links_holdD(4) [OF hb j] k _ _ e])
      show "l \<in> line_parameters L1 j" if "line_link (l_pim L1) j r = Some l" for r l
        using that by (rule line_link_in)
      show "p < length ?specs" if "p \<in> line_parameters L1 j" for p
        using al1 j that by (rule line_parameter_bound)
    qed
    then obtain t where "t < length ?specs" "l_ref L1 ! t = []"
      "resolves (line_link (l_pim L1) j) (l_ref L1) (v + j) t"
      "parameter Lb (v + j) = parameter Lb t"
      by blast
    then show ?thesis
      unfolding m' model_parameter_store refs by auto
  qed
  have ordered: "\<forall>p < length (msk m'). lo m' ! p \<le> up m' ! p"
    using order by (simp add: fields lens)
  have steps: "\<exists>z. get_initial_local_step_sizes m' = Some z \<and> (\<forall>x \<in> set z. 0 \<le> x)"
    if "?specs \<noteq> []"
  proof -
    from that lens(4) have "ind m' \<noteq> []" by (auto simp: fields)
    then obtain c where c: "get_parameter_count m' = Some c"
      by (auto simp: get_parameter_count_def valarray_max_def)
    have "\<forall>x \<in> set (initial_local_step_sizes_loop m' (replicate c 0) 0 0). 0 \<le> x"
      using ordered by (rule step_sizes_nonnegative) simp
    then show ?thesis
      by (simp add: get_initial_local_step_sizes_def c)
  qed
  have none: "get_initial_local_step_sizes m' = None" if "?specs = []"
  proof -
    from that lens(4) have "ind m' = []" by (simp add: fields)
    then show ?thesis
      by (simp add: get_initial_local_step_sizes_def get_parameter_count_def valarray_max_def)
  qed
  have 1: "length (lo m') = length ?specs" by (simp add: fields lens)
  have 2: "\<forall>i < length (lo m'). lo m' ! i \<le> up m' ! i"
    using order by (simp add: fields lens)
  have 3: "\<forall>i < length (lo m').
          s_msk (?specs ! i) \<and> s_ref (?specs ! i) = [] \<longrightarrow>
          lo m' ! i = min (s_lo (?specs ! i)) (s_up (?specs ! i)) \<and>
          up m' ! i = max (s_lo (?specs ! i)) (s_up (?specs ! i))"
    using free by (simp add: fields lens)
  have 4: "\<forall>i < length (lo m').
          \<not> s_msk (?specs ! i) \<and> s_ref (?specs ! i) = [] \<longrightarrow> lo m' ! i = 0 \<and> up m' ! i = 0"
    using pinned by (simp add: fields lens)
  have 5: "\<forall>(sid, v) \<in> set (sim m').
          \<exists>t < length (lo m'). s_ref (?specs ! t) = [] \<and>
            resolves (section_link (sim m') (isc m')) (map s_ref ?specs) (isc m' ! v) t \<and>
            model_parameter m' (isc m' ! v) = model_parameter m' t"
    unfolding 1 fields(5-7) using resolution by blast
  have 6: "\<forall>(lid, v) \<in> set (pim m'). \<forall>j < pc.
          \<exists>t < length (lo m'). s_ref (?specs ! t) = [] \<and>
            resolves (line_link (pim m') j) (map s_ref ?specs) (v + j) t \<and>
            model_parameter m' (v + j) = model_parameter m' t"
    unfolding 1 fields(5-7) using line by blast
  from 1 2 3 4 5 6 steps none show ?thesis by blast
qed

theorem get_bounds_in_order_witness:
  "get trivial_env 6 linked_input ios_at_eof empty_model =
     Some (None, ios_at_eof\<lparr>failbit := False\<rparr>, linked_model)
   \<and> length (lo linked_model) = 13
   \<and> lo linked_model ! 3 = 1 \<and> up linked_model ! 3 = 3
   \<and> lo linked_model ! 0 = 0 \<and> up linked_model ! 0 = 0
   \<and> lo linked_model ! 9 \<le> up linked_model ! 9
   \<and> resolves (line_link (pim linked_model) 2) (map s_ref (parameter_specs linked_input)) 9 3
   \<and> model_parameter linked_model 9 = model_parameter linked_model 3
   \<and> get_initial_local_step_sizes linked_model = Some [1]"
proof -
  let ?refs = "map s_ref (parameter_specs linked_input)"
  let ?link = "line_link (pim linked_model) 2"
  have specs: "parameter_specs linked_input =
      Spec 50 40 60 False [] # doppler_line (Spec 2 3 1 True [])
        @ doppler_line (Spec 2 1 3 True ''a'')"
    by (simp add: parameter_specs_def linked_input_def one_section_def section_specs_def)
  have count: "get_parameter_count linked_model = Some 1"
    by (simp add: get_parameter_count_def valarray_max_def linked_model_def)
  have steps: "get_initial_local_step_sizes linked_model = Some [1]"
    unfolding get_initial_local_step_sizes_def count
    by (simp add: initial_local_step_sizes_loop.simps linked_model_def)
  have len: "length (lo linked_model) = 13"
    by (simp add: linked_model_def)
  have refs: "?refs ! 9 = ''a''" "?refs ! 3 = []"
    by (simp_all add: specs doppler_line_def)
  have link: "?link ''a'' = Some 3"
    by (simp add: line_link_def linked_model_def)
  note all = get_bounds_in_order [OF get_linked_input]
  from all have "(\<forall>i < 13. lo linked_model ! i \<le> up linked_model ! i)
    \<and> (\<forall>i < 13.
          s_msk (parameter_specs linked_input ! i) \<and> s_ref (parameter_specs linked_input ! i) = [] \<longrightarrow>
          lo linked_model ! i = min (s_lo (parameter_specs linked_input ! i)) (s_up (parameter_specs linked_input ! i)) \<and>
          up linked_model ! i = max (s_lo (parameter_specs linked_input ! i)) (s_up (parameter_specs linked_input ! i)))
    \<and> (\<forall>i < 13.
          \<not> s_msk (parameter_specs linked_input ! i) \<and> s_ref (parameter_specs linked_input ! i) = [] \<longrightarrow>
          lo linked_model ! i = 0 \<and> up linked_model ! i = 0)"
    unfolding len by simp
  then have a: "lo linked_model ! 9 \<le> up linked_model ! 9"
    and "s_msk (parameter_specs linked_input ! 3) \<and> s_ref (parameter_specs linked_input ! 3) = [] \<longrightarrow>
          lo linked_model ! 3 = min (s_lo (parameter_specs linked_input ! 3)) (s_up (parameter_specs linked_input ! 3)) \<and>
          up linked_model ! 3 = max (s_lo (parameter_specs linked_input ! 3)) (s_up (parameter_specs linked_input ! 3))"
    and "\<not> s_msk (parameter_specs linked_input ! 0) \<and> s_ref (parameter_specs linked_input ! 0) = [] \<longrightarrow>
          lo linked_model ! 0 = 0 \<and> up linked_model ! 0 = 0"
    by simp_all
  then have b: "lo linked_model ! 3 = 1 \<and> up linked_model ! 3 = 3"
    and c: "lo linked_model ! 0 = 0 \<and> up linked_model ! 0 = 0"
    by (simp_all add: specs doppler_line_def)
  from all have lines: "\<forall>(lid, v) \<in> set (pim linked_model). \<forall>j < 6.
      \<exists>t < length (lo linked_model). s_ref (parameter_specs linked_input ! t) = [] \<and>
        resolves (line_link (pim linked_model) j) ?refs (v + j) t \<and>
        model_parameter linked_model (v + j) = model_parameter linked_model t"
    by (elim conjE)
  have entry: "(''b'', 7) \<in> set (pim linked_model)" by (simp add: linked_model_def)
  from bspec [OF lines entry] have "\<forall>j < 6.
      \<exists>t < length (lo linked_model). s_ref (parameter_specs linked_input ! t) = [] \<and>
        resolves (line_link (pim linked_model) j) ?refs (7 + j) t \<and>
        model_parameter linked_model (7 + j) = model_parameter linked_model t"
    unfolding prod.case .
  then have "2 < (6::nat) \<longrightarrow> (\<exists>t < length (lo linked_model).
        s_ref (parameter_specs linked_input ! t) = [] \<and>
        resolves ?link ?refs (7 + 2) t \<and>
        model_parameter linked_model (7 + 2) = model_parameter linked_model t)"
    by (rule spec)
  then have "\<exists>t. resolves ?link ?refs 9 t \<and>
        model_parameter linked_model 9 = model_parameter linked_model t"
    by auto
  then obtain t where r: "resolves ?link ?refs 9 t"
    and p: "model_parameter linked_model 9 = model_parameter linked_model t"
    by auto
  from r have "t = 3"
  proof (cases rule: resolves.cases)
    case unlinked
    with refs(1) show ?thesis by simp
  next
    case (linked l)
    from linked(2) link refs(1) have "l = 3" by simp
    with linked(3) have "resolves ?link ?refs 3 t" by simp
    then show ?thesis
    proof (cases rule: resolves.cases)
      case unlinked
      then show ?thesis by simp
    next
      case (linked l')
      with refs(2) show ?thesis by simp
    qed
  qed
  with r p have "resolves ?link ?refs 9 3"
    and "model_parameter linked_model 9 = model_parameter linked_model 3"
    by simp_all
  with a b c steps len show ?thesis
    using get_linked_input by simp
qed

subsection \<open>Evaluating the objective\<close>

lemma splice_loop_this: "cs_this (splice_loop x st i) = cs_this st"
proof (induction x st i rule: splice_loop.induct)
  case (1 x st i)
  note unfold = splice_loop.simps [of x st i]
  show ?case
  proof (cases "i < length (cs_y st)")
    case False
    with unfold show ?thesis by simp
  next
    case True
    define st' where
      "st' = (if msk (cs_this st) ! i then st\<lparr>cs_y := (cs_y st)[i := x ! (ind (cs_this st) ! i)]\<rparr> else st)"
    have "splice_loop x st i = splice_loop x st' (i + 1)"
      by (subst unfold) (simp add: True st'_def)
    moreover from "1.IH" [OF True] have "cs_this (splice_loop x st' (i + 1)) = cs_this st'"
      by (simp add: st'_def)
    moreover have "cs_this st' = cs_this st"
      by (simp add: st'_def)
    ultimately show ?thesis by simp
  qed
qed

lemma cost_loop_this: "cs_this (cost_loop env pc st i) = cs_this st"
proof (induction env pc st i rule: cost_loop.induct)
  case (1 env pc st i)
  note unfold = cost_loop.simps [of env pc st i]
  show ?case
  proof (cases "i < length (sec (cs_this st))")
    case False
    with unfold show ?thesis by simp
  next
    case True
    from "1.IH" [OF True] show ?thesis
      by (subst unfold) (simp add: True)
  qed
qed

lemma set_values_loop_val:
  assumes "i \<le> length (val m)"
  shows "val (set_values_loop x z m i) =
           take i (val m) @
           map (\<lambda>p. if msk m ! p then x ! (ind m ! p) else val m ! p) [i..<length (val m)]
         \<and> msk (set_values_loop x z m i) = msk m \<and> ind (set_values_loop x z m i) = ind m
         \<and> lo (set_values_loop x z m i) = lo m \<and> up (set_values_loop x z m i) = up m"
  using assms
proof (induction x z m i rule: set_values_loop.induct)
  case (1 x z m i)
  note unfold = set_values_loop.simps [of x z m i]
  show ?case
  proof (cases "i < length (val m)")
    case False
    with "1.prems" unfold show ?thesis by simp
  next
    case True
    define m' where "m' =
       (if msk m ! i
        then m\<lparr>val := (val m)[i := x ! (ind m ! i)], err := (err m)[i := z ! (ind m ! i)]\<rparr>
        else m\<lparr>err := (err m)[i := 0]\<rparr>)"
    have run: "set_values_loop x z m i = set_values_loop x z m' (i + 1)"
      by (subst unfold) (simp add: True m'_def)
    have same: "msk m' = msk m" "ind m' = ind m" "lo m' = lo m" "up m' = up m"
      "length (val m') = length (val m)"
      by (simp_all add: m'_def)
    have v: "val m' = (val m)[i := (if msk m ! i then x ! (ind m ! i) else val m ! i)]"
      by (simp add: m'_def)
    from True have "i + 1 \<le> length (val m')" by (simp add: same)
    from "1.IH" [OF True, folded m'_def, OF this]
    have IH: "val (set_values_loop x z m' (i + 1)) =
           take (i + 1) (val m') @
           map (\<lambda>p. if msk m ! p then x ! (ind m ! p) else val m' ! p) [i + 1..<length (val m)]"
      and rest: "msk (set_values_loop x z m' (i + 1)) = msk m"
        "ind (set_values_loop x z m' (i + 1)) = ind m"
        "lo (set_values_loop x z m' (i + 1)) = lo m" "up (set_values_loop x z m' (i + 1)) = up m"
      by (simp_all add: same)
    have a: "take (i + 1) (val m') = take i (val m) @ [if msk m ! i then x ! (ind m ! i) else val m ! i]"
      using True by (simp add: v take_Suc_conv_app_nth)
    have b: "map (\<lambda>p. if msk m ! p then x ! (ind m ! p) else val m' ! p) [i + 1..<length (val m)] =
             map (\<lambda>p. if msk m ! p then x ! (ind m ! p) else val m ! p) [i + 1..<length (val m)]"
      by (rule map_cong) (simp_all add: v)
    have c: "[i..<length (val m)] = i # [i + 1..<length (val m)]"
      using True by (simp add: upt_conv_Cons)
    show ?thesis
      unfolding run IH a b c using rest by simp
  qed
qed

lemma set_sections_loop_val:
  "val (set_sections_loop env pc m i) = val m"
proof (induction env pc m i rule: set_sections_loop.induct)
  case (1 env pc m i)
  note unfold = set_sections_loop.simps [of env pc m i]
  show ?case
  proof (cases "i < length (sec m)")
    case False
    with unfold show ?thesis by simp
  next
    case True
    from "1.IH" [OF True] show ?thesis
      by (subst unfold) (simp add: True)
  qed
qed

text \<open>
  C9. Evaluating the objective, \<open>cost(x, n)\<close> or \<open>operator()(x, n)\<close>, leaves the model as it
  was: the loop splices \<open>x\<close> into the local copy \<open>y\<close> of the value table. \<open>set\<close> is what
  writes \<open>x\<close> into the free slots of the stored value table.
\<close>

theorem cost_leaves_model:
  "snd (cost env pc m x n) = m \<and> snd (objective env pc m x n) = m
   \<and> val (set_model env pc m x z) =
       map (\<lambda>i. if msk m ! i then x ! (ind m ! i) else val m ! i) [0..<length (val m)]"
proof -
  have "snd (cost env pc m x n) = m"
    by (simp add: cost_def Let_def cost_loop_this splice_loop_this)
  moreover have "val (set_model env pc m x z) =
       map (\<lambda>i. if msk m ! i then x ! (ind m ! i) else val m ! i) [0..<length (val m)]"
    using set_values_loop_val [of 0 m x z]
    by (simp add: set_model_def set_sections_loop_val)
  ultimately show ?thesis
    by (simp add: objective_def)
qed

section \<open>Properties of the Mersenne twister\<close>

subsection \<open>The expansion of a single seed\<close>

lemma reset_loop_nth:
  assumes "length st = mt_n p" and "1 \<le> k" and "\<forall>j < k. st ! j = expansion p seed j"
  shows "length (reset_loop p st k) = mt_n p \<and>
         (\<forall>j < mt_n p. reset_loop p st k ! j = expansion p seed j)"
  using assms
proof (induction p st k rule: reset_loop.induct)
  case (1 p st k)
  note unfold = reset_loop.simps [of p st k]
  show ?case
  proof (cases "k < mt_n p")
    case False
    then have stop: "reset_loop p st k = st" by (subst unfold) simp
    from False "1.prems" show ?thesis unfolding stop by simp
  next
    case True
    define st' where "st' = st[k := expand p (st ! (k - 1)) k]"
    have run: "reset_loop p st k = reset_loop p st' (k + 1)"
      by (subst unfold) (simp add: True st'_def)
    from "1.prems"(2) obtain k' where k': "k = Suc k'" by (cases k) simp_all
    have "st' ! j = expansion p seed j" if "j < k + 1" for j
    proof (cases "j = k")
      case True
      with \<open>k < mt_n p\<close> "1.prems"(1,3) show ?thesis
        by (simp add: st'_def k')
    next
      case False
      with that "1.prems"(3) show ?thesis by (simp add: st'_def)
    qed
    then have "\<forall>j < k + 1. st' ! j = expansion p seed j" by simp
    moreover have "length st' = mt_n p" using "1.prems"(1) by (simp add: st'_def)
    ultimately show ?thesis
      unfolding run using "1.IH" [OF True, folded st'_def] by simp
  qed
qed

lemma reset_nth:
  assumes "length (state g) = mt_n p" and "0 < mt_n p"
  shows "length (state (reset p seed g)) = mt_n p"
    and "index (reset p seed g) = mt_n p"
    and "j < mt_n p \<Longrightarrow> state (reset p seed g) ! j = expansion p seed j"
proof -
  let ?st = "(state g)[0 := seed AND word_mask p]"
  have "\<forall>j < 1. ?st ! j = expansion p seed j" using assms by simp
  with reset_loop_nth [of ?st p 1 seed] assms(1)
  have *: "length (reset_loop p ?st 1) = mt_n p \<and>
           (\<forall>j < mt_n p. reset_loop p ?st 1 ! j = expansion p seed j)"
    by simp
  from * show "length (state (reset p seed g)) = mt_n p" by (simp add: reset_def)
  show "index (reset p seed g) = mt_n p" by (simp add: reset_def)
  from * show "j < mt_n p \<Longrightarrow> state (reset p seed g) ! j = expansion p seed j"
    by (simp add: reset_def)
qed

lemma mtwister_reset_loop_nth:
  assumes "length st = mt_n p" and "1 \<le> k"
    and "\<forall>j < k. st ! j = mtwister_expansion p multiplier seed j"
  shows "length (mtwister_reset_loop p multiplier st k) = mt_n p \<and>
         (\<forall>j < mt_n p. mtwister_reset_loop p multiplier st k ! j =
            mtwister_expansion p multiplier seed j)"
  using assms
proof (induction p multiplier st k rule: mtwister_reset_loop.induct)
  case (1 p multiplier st k)
  note unfold = mtwister_reset_loop.simps [of p multiplier st k]
  show ?case
  proof (cases "k < mt_n p")
    case False
    then have stop: "mtwister_reset_loop p multiplier st k = st" by (subst unfold) simp
    from False "1.prems" show ?thesis unfolding stop by simp
  next
    case True
    define st' where "st' = st[k := mtwister_expand p multiplier (st ! (k - 1)) k]"
    have run: "mtwister_reset_loop p multiplier st k = mtwister_reset_loop p multiplier st' (k + 1)"
      by (subst unfold) (simp add: True st'_def)
    from "1.prems"(2) obtain k' where k': "k = Suc k'" by (cases k) simp_all
    have "st' ! j = mtwister_expansion p multiplier seed j" if "j < k + 1" for j
    proof (cases "j = k")
      case True
      with \<open>k < mt_n p\<close> "1.prems"(1,3) show ?thesis
        by (simp add: st'_def k')
    next
      case False
      with that "1.prems"(3) show ?thesis by (simp add: st'_def)
    qed
    then have "\<forall>j < k + 1. st' ! j = mtwister_expansion p multiplier seed j" by simp
    moreover have "length st' = mt_n p" using "1.prems"(1) by (simp add: st'_def)
    ultimately show ?thesis
      unfolding run using "1.IH" [OF True, folded st'_def] by simp
  qed
qed

lemma mersenne_twister_nth:
  assumes "0 < mt_n p"
  shows "length (state (mersenne_twister p seed multiplier)) = mt_n p"
    and "index (mersenne_twister p seed multiplier) = mt_n p"
    and "j < mt_n p \<Longrightarrow>
         state (mersenne_twister p seed multiplier) ! j = mtwister_expansion p multiplier seed j"
proof -
  let ?st = "(replicate (mt_n p) 0)[0 := seed AND word_mask p]"
  have "\<forall>j < 1. ?st ! j = mtwister_expansion p multiplier seed j" using assms by simp
  with mtwister_reset_loop_nth [of ?st p 1 multiplier seed]
  have *: "length (mtwister_reset_loop p multiplier ?st 1) = mt_n p \<and>
           (\<forall>j < mt_n p. mtwister_reset_loop p multiplier ?st 1 ! j =
              mtwister_expansion p multiplier seed j)"
    by simp
  from * show "length (state (mersenne_twister p seed multiplier)) = mt_n p"
    by (simp add: mersenne_twister_def mtwister_reset_def)
  show "index (mersenne_twister p seed multiplier) = mt_n p"
    by (simp add: mersenne_twister_def mtwister_reset_def)
  from * show "j < mt_n p \<Longrightarrow>
         state (mersenne_twister p seed multiplier) ! j = mtwister_expansion p multiplier seed j"
    by (simp add: mersenne_twister_def mtwister_reset_def)
qed

subsection \<open>Regenerating the state\<close>

lemma twist_nth:
  assumes "j < length st" and "j \<noteq> k"
  shows "length (twist p i j k st) = length st"
    and "twist p i j k st ! j = twist_word p (st ! i) (st ! j) (st ! k)"
    and "x \<noteq> j \<Longrightarrow> twist p i j k st ! x = st ! x"
  using assms by (simp_all add: twist_def twist_word_def Let_def)

lemma twist_loop1_nth:
  assumes "0 < mt_m p" and "mt_m p < mt_n p" and "length st = mt_n p"
  shows "length (twist_loop1 p st k) = mt_n p \<and>
         (\<forall>x < mt_n p. twist_loop1 p st k ! x =
            (if k \<le> x \<and> x < mt_n p - mt_m p
             then twist_word p (st ! (x + mt_m p)) (st ! x) (st ! (x + 1)) else st ! x))"
  using assms
proof (induction p st k rule: twist_loop1.induct)
  case (1 p st k)
  note unfold = twist_loop1.simps [of p st k]
  show ?case
  proof (cases "k < mt_n p - mt_m p")
    case False
    then have stop: "twist_loop1 p st k = st" by (subst unfold) simp
    from False "1.prems" show ?thesis unfolding stop by auto
  next
    case True
    define st' where "st' = twist p (k + mt_m p) k (k + 1) st"
    have run: "twist_loop1 p st k = twist_loop1 p st' (k + 1)"
      by (subst unfold) (simp add: True st'_def)
    from True "1.prems" have k: "k < length st" "k \<noteq> k + 1" by simp_all
    note tw = twist_nth [OF k, where p = p and i = "k + mt_m p", folded st'_def]
    have len: "length st' = mt_n p" using tw(1) "1.prems"(3) by simp
    from "1.IH" [OF True, folded st'_def, OF "1.prems"(1,2) len]
    have IH: "length (twist_loop1 p st' (k + 1)) = mt_n p"
      "\<And>x. x < mt_n p \<Longrightarrow> twist_loop1 p st' (k + 1) ! x =
            (if k + 1 \<le> x \<and> x < mt_n p - mt_m p
             then twist_word p (st' ! (x + mt_m p)) (st' ! x) (st' ! (x + 1)) else st' ! x)"
      by simp_all
    have "twist_loop1 p st' (k + 1) ! x =
            (if k \<le> x \<and> x < mt_n p - mt_m p
             then twist_word p (st ! (x + mt_m p)) (st ! x) (st ! (x + 1)) else st ! x)"
      if x: "x < mt_n p" for x
    proof (cases "x = k")
      case True
      with IH(2) [OF x] tw(2) \<open>k < mt_n p - mt_m p\<close> show ?thesis by simp
    next
      case False
      show ?thesis
      proof (cases "k + 1 \<le> x \<and> x < mt_n p - mt_m p")
        case True
        with "1.prems"(1) have "x + mt_m p \<noteq> k" "x \<noteq> k" "x + 1 \<noteq> k" by simp_all
        with IH(2) [OF x] True tw(3) show ?thesis by simp
      next
        case False
        with IH(2) [OF x] \<open>x \<noteq> k\<close> tw(3) show ?thesis by auto
      qed
    qed
    with IH(1) show ?thesis unfolding run by simp
  qed
qed

lemma twist_loop2_nth:
  assumes "length st = mt_n p"
  shows "length (twist_loop2 p st k) = mt_n p \<and> (\<forall>x < k. twist_loop2 p st k ! x = st ! x)"
  using assms
proof (induction p st k rule: twist_loop2.induct)
  case (1 p st k)
  note unfold = twist_loop2.simps [of p st k]
  show ?case
  proof (cases "k < mt_n p - 1")
    case False
    then have stop: "twist_loop2 p st k = st" by (subst unfold) simp
    from False "1.prems" show ?thesis unfolding stop by simp
  next
    case True
    define st' where "st' = twist p (k + mt_m p - mt_n p) k (k + 1) st"
    have run: "twist_loop2 p st k = twist_loop2 p st' (k + 1)"
      using True by (subst unfold) (simp add: st'_def)
    from True "1.prems" have k: "k < length st" "k \<noteq> k + 1" by simp_all
    note tw = twist_nth [OF k, where p = p and i = "k + mt_m p - mt_n p", folded st'_def]
    have len: "length st' = mt_n p" using tw(1) "1.prems" by simp
    from "1.IH" [OF True, folded st'_def, OF len] tw(3)
    show ?thesis unfolding run by simp
  qed
qed

text \<open>
  The first \<open>n - m\<close> words of the regenerated state come from the state before by one
  \<open>twist\<close> each.
\<close>

lemma regenerate_nth:
  assumes "0 < mt_m p" and "mt_m p < mt_n p" and "length st = mt_n p"
    and "x < mt_n p - mt_m p"
  shows "regenerate p st ! x = twist_word p (st ! (x + mt_m p)) (st ! x) (st ! (x + 1))"
proof -
  let ?s1 = "twist_loop1 p st 0"
  let ?s2 = "twist_loop2 p ?s1 (mt_n p - mt_m p)"
  from twist_loop1_nth [OF assms(1-3), of 0] assms(4)
  have s1: "length ?s1 = mt_n p"
    "?s1 ! x = twist_word p (st ! (x + mt_m p)) (st ! x) (st ! (x + 1))"
    by simp_all
  from twist_loop2_nth [OF s1(1), of "mt_n p - mt_m p"] assms(4)
  have s2: "length ?s2 = mt_n p" "?s2 ! x = ?s1 ! x" by simp_all
  from assms have "mt_n p - 1 < length ?s2" "mt_n p - 1 \<noteq> 0" "x \<noteq> mt_n p - 1"
    by (simp_all add: s2(1))
  from twist_nth(3) [OF this(1,2), where x = x and p = p and i = "mt_m p - 1"] this(3)
  have "regenerate p st ! x = ?s2 ! x" by (simp add: regenerate_def)
  with s1(2) s2(2) show ?thesis by simp
qed

subsection \<open>Drawing words\<close>

lemma upt_shift: "[i..<i + Suc k] = i # [i + 1..<i + 1 + k]"
  by (simp add: upt_conv_Cons)

lemma rands_from_index:
  assumes "index g + k \<le> mt_n p"
  shows "rands p k g = map (\<lambda>x. temper p (state g ! x)) [index g..<index g + k]"
  using assms
proof (induction k arbitrary: g)
  case 0
  then show ?case by simp
next
  case (Suc k)
  from Suc.prems have no: "index g \<noteq> mt_n p" by simp
  then have r: "rand p g = (temper p (state g ! index g), g\<lparr>index := index g + 1\<rparr>)"
    by (simp add: rand_def)
  from Suc.prems have "index (g\<lparr>index := index g + 1\<rparr>) + k \<le> mt_n p" by simp
  from Suc.IH [OF this]
  have IH: "rands p k (g\<lparr>index := index g + 1\<rparr>) =
          map (\<lambda>x. temper p (state g ! x)) [index g + 1..<index g + 1 + k]"
    by simp
  have "[index g..<index g + Suc k] = index g # [index g + 1..<index g + 1 + k]"
    by (rule upt_shift)
  then show ?case by (simp only: rands.simps r prod.case IH list.map)
qed

lemma rands_first:
  assumes "index g = mt_n p" and "k \<le> mt_n p"
  shows "rands p k g = map (\<lambda>x. temper p (regenerate p (state g) ! x)) [0..<k]"
proof (cases k)
  case 0
  then show ?thesis by simp
next
  case (Suc k')
  let ?g = "\<lparr>state = regenerate p (state g), index = 0\<rparr>"
  have r: "rand p g = (temper p (state ?g ! 0), ?g\<lparr>index := 1\<rparr>)"
    using assms(1) by (simp add: rand_def)
  from assms(2) Suc have "index (?g\<lparr>index := 1\<rparr>) + k' \<le> mt_n p" by simp
  from rands_from_index [OF this]
  have rest: "rands p k' (?g\<lparr>index := 1\<rparr>) =
          map (\<lambda>x. temper p (regenerate p (state g) ! x)) [0 + 1..<0 + 1 + k']"
    by simp
  have st0: "state ?g ! 0 = regenerate p (state g) ! 0" by simp
  have "[0..<0 + Suc k'] = 0 # [0 + 1..<0 + 1 + k']"
    by (rule upt_shift)
  then have "[0..<Suc k'] = 0 # [0 + 1..<0 + 1 + k']" by simp
  then show ?thesis
    unfolding Suc by (simp only: rands.simps r prod.case rest list.map st0)
qed

lemma mtwister_rands_from_index:
  assumes "index g + k \<le> mt_n p"
  shows "mtwister_rands p k g = map (\<lambda>x. mtwister_temper p (state g ! x)) [index g..<index g + k]"
  using assms
proof (induction k arbitrary: g)
  case 0
  then show ?case by simp
next
  case (Suc k)
  from Suc.prems have no: "index g \<noteq> mt_n p" by simp
  then have r: "mtwister_rand p g = (mtwister_temper p (state g ! index g), g\<lparr>index := index g + 1\<rparr>)"
    by (simp add: mtwister_rand_def)
  from Suc.prems have "index (g\<lparr>index := index g + 1\<rparr>) + k \<le> mt_n p" by simp
  from Suc.IH [OF this]
  have IH: "mtwister_rands p k (g\<lparr>index := index g + 1\<rparr>) =
          map (\<lambda>x. mtwister_temper p (state g ! x)) [index g + 1..<index g + 1 + k]"
    by simp
  have "[index g..<index g + Suc k] = index g # [index g + 1..<index g + 1 + k]"
    by (rule upt_shift)
  then show ?case by (simp only: mtwister_rands.simps r prod.case IH list.map)
qed

lemma mtwister_rands_first:
  assumes "index g = mt_n p" and "k \<le> mt_n p"
  shows "mtwister_rands p k g = map (\<lambda>x. mtwister_temper p (regenerate p (state g) ! x)) [0..<k]"
proof (cases k)
  case 0
  then show ?thesis by simp
next
  case (Suc k')
  let ?g = "\<lparr>state = regenerate p (state g), index = 0\<rparr>"
  have r: "mtwister_rand p g = (mtwister_temper p (state ?g ! 0), ?g\<lparr>index := 1\<rparr>)"
    using assms(1) by (simp add: mtwister_rand_def)
  from assms(2) Suc have "index (?g\<lparr>index := 1\<rparr>) + k' \<le> mt_n p" by simp
  from mtwister_rands_from_index [OF this]
  have rest: "mtwister_rands p k' (?g\<lparr>index := 1\<rparr>) =
          map (\<lambda>x. mtwister_temper p (regenerate p (state g) ! x)) [0 + 1..<0 + 1 + k']"
    by simp
  have st0: "state ?g ! 0 = regenerate p (state g) ! 0" by simp
  have "[0..<0 + Suc k'] = 0 # [0 + 1..<0 + 1 + k']"
    by (rule upt_shift)
  then have "[0..<Suc k'] = 0 # [0 + 1..<0 + 1 + k']" by simp
  then show ?thesis
    unfolding Suc by (simp only: mtwister_rands.simps r prod.case rest list.map st0)
qed

subsection \<open>The generator of mtwister.h, seeded with 5489\<close>

lemma mt19937_params:
  "mt_n mt19937 = 624" "mt_m mt19937 = 397" "word_mask mt19937 = 4294967295"
  by (simp_all add: mt19937_def word_mask_def mask_eq_exp_minus_1)

lemma mtwister_expand_mt19937:
  "mtwister_expand mt19937 1812433253 x k =
     (1812433253 * (x XOR drop_bit 30 x) + of_nat k) AND 4294967295"
  by (simp add: mtwister_expand_def mt19937_params) (simp add: mt19937_def)

lemma mtwister_expansion_numeral:
  "mtwister_expansion p multiplier seed (numeral k) =
     mtwister_expand p multiplier (mtwister_expansion p multiplier seed (pred_numeral k)) (numeral k)"
  by (simp add: numeral_eq_Suc)

lemma mtwister_expansion_step:
  "mtwister_expansion p multiplier seed (k + 1) =
     mtwister_expand p multiplier (mtwister_expansion p multiplier seed k) (k + 1)"
  by simp

lemma mt19937_word_0: "mtwister_expansion mt19937 1812433253 5489 0 = 5489"
  by (simp add: mt19937_params)

lemma mt19937_word_Suc_0: "mtwister_expansion mt19937 1812433253 5489 (Suc 0) = 1301868182"
  by (simp add: mt19937_word_0 mtwister_expand_mt19937 del: mtwister_expansion.simps(1))

lemma mt19937_word_1: "mtwister_expansion mt19937 1812433253 5489 1 = 1301868182"
  using mt19937_word_Suc_0 by simp

lemma mt19937_word_2: "mtwister_expansion mt19937 1812433253 5489 2 = 2938499221"
  by (simp add: mtwister_expansion_numeral mt19937_word_Suc_0 mtwister_expand_mt19937
      del: mtwister_expansion.simps)

lemma mt19937_word_3: "mtwister_expansion mt19937 1812433253 5489 3 = 2950281878"
  using mtwister_expansion_step [of mt19937 1812433253 5489 2]
  by (simp add: mt19937_word_2 mtwister_expand_mt19937 del: mtwister_expansion.simps)

lemma mt19937_word_4: "mtwister_expansion mt19937 1812433253 5489 4 = 1875628136"
  using mtwister_expansion_step [of mt19937 1812433253 5489 3]
  by (simp add: mt19937_word_3 mtwister_expand_mt19937 del: mtwister_expansion.simps)

lemma mt19937_word_5: "mtwister_expansion mt19937 1812433253 5489 5 = 751856242"
  using mtwister_expansion_step [of mt19937 1812433253 5489 4]
  by (simp add: mt19937_word_4 mtwister_expand_mt19937 del: mtwister_expansion.simps)

lemma mt19937_word_6: "mtwister_expansion mt19937 1812433253 5489 6 = 944701696"
  using mtwister_expansion_step [of mt19937 1812433253 5489 5]
  by (simp add: mt19937_word_5 mtwister_expand_mt19937 del: mtwister_expansion.simps)

lemma mt19937_word_7: "mtwister_expansion mt19937 1812433253 5489 7 = 2243192071"
  using mtwister_expansion_step [of mt19937 1812433253 5489 6]
  by (simp add: mt19937_word_6 mtwister_expand_mt19937 del: mtwister_expansion.simps)

lemma mt19937_word_8: "mtwister_expansion mt19937 1812433253 5489 8 = 694061057"
  using mtwister_expansion_step [of mt19937 1812433253 5489 7]
  by (simp add: mt19937_word_7 mtwister_expand_mt19937 del: mtwister_expansion.simps)

lemma mt19937_word_9: "mtwister_expansion mt19937 1812433253 5489 9 = 219885934"
  using mtwister_expansion_step [of mt19937 1812433253 5489 8]
  by (simp add: mt19937_word_8 mtwister_expand_mt19937 del: mtwister_expansion.simps)

lemma mt19937_word_10: "mtwister_expansion mt19937 1812433253 5489 10 = 2066767472"
  using mtwister_expansion_step [of mt19937 1812433253 5489 9]
  by (simp add: mt19937_word_9 mtwister_expand_mt19937 del: mtwister_expansion.simps)

lemma mt19937_word_397: "mtwister_expansion mt19937 1812433253 5489 397 = 3183906156"
  by (simp add: mtwister_expansion_numeral mt19937_word_0 mt19937_word_Suc_0 mtwister_expand_mt19937
      del: mtwister_expansion.simps)

lemma mt19937_word_398: "mtwister_expansion mt19937 1812433253 5489 398 = 1728556020"
  using mtwister_expansion_step [of mt19937 1812433253 5489 397]
  by (simp add: mt19937_word_397 mtwister_expand_mt19937 del: mtwister_expansion.simps)

lemma mt19937_word_399: "mtwister_expansion mt19937 1812433253 5489 399 = 3502241336"
  using mtwister_expansion_step [of mt19937 1812433253 5489 398]
  by (simp add: mt19937_word_398 mtwister_expand_mt19937 del: mtwister_expansion.simps)

lemma mt19937_word_400: "mtwister_expansion mt19937 1812433253 5489 400 = 3055466967"
  using mtwister_expansion_step [of mt19937 1812433253 5489 399]
  by (simp add: mt19937_word_399 mtwister_expand_mt19937 del: mtwister_expansion.simps)

lemma mt19937_word_401: "mtwister_expansion mt19937 1812433253 5489 401 = 1013272474"
  using mtwister_expansion_step [of mt19937 1812433253 5489 400]
  by (simp add: mt19937_word_400 mtwister_expand_mt19937 del: mtwister_expansion.simps)

lemma mt19937_word_402: "mtwister_expansion mt19937 1812433253 5489 402 = 818402132"
  using mtwister_expansion_step [of mt19937 1812433253 5489 401]
  by (simp add: mt19937_word_401 mtwister_expand_mt19937 del: mtwister_expansion.simps)

lemma mt19937_word_403: "mtwister_expansion mt19937 1812433253 5489 403 = 1715099063"
  using mtwister_expansion_step [of mt19937 1812433253 5489 402]
  by (simp add: mt19937_word_402 mtwister_expand_mt19937 del: mtwister_expansion.simps)

lemma mt19937_word_404: "mtwister_expansion mt19937 1812433253 5489 404 = 2900113506"
  using mtwister_expansion_step [of mt19937 1812433253 5489 403]
  by (simp add: mt19937_word_403 mtwister_expand_mt19937 del: mtwister_expansion.simps)

lemma mt19937_word_405: "mtwister_expansion mt19937 1812433253 5489 405 = 397254517"
  using mtwister_expansion_step [of mt19937 1812433253 5489 404]
  by (simp add: mt19937_word_404 mtwister_expand_mt19937 del: mtwister_expansion.simps)

lemma mt19937_word_406: "mtwister_expansion mt19937 1812433253 5489 406 = 4194863039"
  using mtwister_expansion_step [of mt19937 1812433253 5489 405]
  by (simp add: mt19937_word_405 mtwister_expand_mt19937 del: mtwister_expansion.simps)

lemmas mt19937_words =
  mt19937_word_0 mt19937_word_1 mt19937_word_2 mt19937_word_3 mt19937_word_4 mt19937_word_5 mt19937_word_6 mt19937_word_7 mt19937_word_8 mt19937_word_9 mt19937_word_10 mt19937_word_397 mt19937_word_398 mt19937_word_399 mt19937_word_400 mt19937_word_401 mt19937_word_402 mt19937_word_403 mt19937_word_404 mt19937_word_405 mt19937_word_406

lemma mersenne_twister_mt19937_word:
  assumes "x < 227" and "xm = x + 397" and "x1 = x + 1"
  shows "regenerate mt19937 (state (mersenne_twister mt19937 5489 1812433253)) ! x =
           twist_word mt19937 (mtwister_expansion mt19937 1812433253 5489 xm)
             (mtwister_expansion mt19937 1812433253 5489 x)
             (mtwister_expansion mt19937 1812433253 5489 x1)"
proof -
  let ?g = "mersenne_twister mt19937 5489 1812433253"
  have n: "0 < mt_n mt19937" by (simp add: mt19937_params)
  note g = mersenne_twister_nth [OF n, where seed = 5489 and multiplier = 1812433253]
  have "regenerate mt19937 (state ?g) ! x =
          twist_word mt19937 (state ?g ! (x + mt_m mt19937)) (state ?g ! x) (state ?g ! (x + 1))"
    using assms g(1) by (intro regenerate_nth) (simp_all add: mt19937_params)
  moreover have "state ?g ! (x + mt_m mt19937) = mtwister_expansion mt19937 1812433253 5489 xm"
    using assms g(3) [where j = "x + mt_m mt19937"] by (simp add: mt19937_params)
  moreover have "state ?g ! x = mtwister_expansion mt19937 1812433253 5489 x"
    using assms g(3) [where j = x] by (simp add: mt19937_params)
  moreover have "state ?g ! (x + 1) = mtwister_expansion mt19937 1812433253 5489 x1"
    using assms g(3) [where j = "x + 1"] by (simp add: mt19937_params del: mtwister_expansion.simps)
  ultimately show ?thesis by (simp only:)
qed

lemma mt19937_masks:
  "drop_bit (64 - mt_w mt19937) (push_bit (64 - mt_w mt19937 + mt_r mt19937) (- 1)) = (2147483648 :: word64)"
  "drop_bit (64 - mt_r mt19937) (- 1) = (2147483647 :: word64)"
  by (simp_all add: mt19937_def mask_eq_exp_minus_1)

lemma twist_word_mt19937:
  "twist_word mt19937 xi xj xk =
     (if xk AND 1 = 1
      then (xi XOR drop_bit 1 ((xj AND 2147483648) OR (xk AND 2147483647))) XOR 2567483615
      else xi XOR drop_bit 1 ((xj AND 2147483648) OR (xk AND 2147483647)))"
proof -
  have a: "mt_a mt19937 = 2567483615" by (simp add: mt19937_def)
  show ?thesis
    unfolding twist_word_def twisted_def mt19937_masks a ..
qed

lemma mtwister_temper_mt19937:
  "mtwister_temper mt19937 x =
     (let x1 = x XOR drop_bit 11 x;
          x2 = x1 XOR (push_bit 7 x1 AND 2636928640);
          x3 = x2 XOR (push_bit 15 x2 AND 4022730752)
      in x3 XOR drop_bit 18 x3)"
  by (simp add: mtwister_temper_def mt19937_def)

lemma mt19937_output_0:
  "mtwister_temper mt19937 (regenerate mt19937 (state (mersenne_twister mt19937 5489 1812433253)) ! 0) = 3499211612"
proof -
  have w: "regenerate mt19937 (state (mersenne_twister mt19937 5489 1812433253)) ! 0 =
      twist_word mt19937 (mtwister_expansion mt19937 1812433253 5489 397)
        (mtwister_expansion mt19937 1812433253 5489 0)
        (mtwister_expansion mt19937 1812433253 5489 1)"
    by (rule mersenne_twister_mt19937_word) simp_all
  show ?thesis
    unfolding w mt19937_word_397 mt19937_word_0 mt19937_word_1
    by (simp add: twist_word_mt19937 mtwister_temper_mt19937 Let_def)
qed

lemma mt19937_output_1:
  "mtwister_temper mt19937 (regenerate mt19937 (state (mersenne_twister mt19937 5489 1812433253)) ! 1) = 581869302"
proof -
  have w: "regenerate mt19937 (state (mersenne_twister mt19937 5489 1812433253)) ! 1 =
      twist_word mt19937 (mtwister_expansion mt19937 1812433253 5489 398)
        (mtwister_expansion mt19937 1812433253 5489 1)
        (mtwister_expansion mt19937 1812433253 5489 2)"
    by (rule mersenne_twister_mt19937_word) simp_all
  show ?thesis
    unfolding w mt19937_word_398 mt19937_word_1 mt19937_word_2
    by (simp add: twist_word_mt19937 mtwister_temper_mt19937 Let_def)
qed

lemma mt19937_output_2:
  "mtwister_temper mt19937 (regenerate mt19937 (state (mersenne_twister mt19937 5489 1812433253)) ! 2) = 3890346734"
proof -
  have w: "regenerate mt19937 (state (mersenne_twister mt19937 5489 1812433253)) ! 2 =
      twist_word mt19937 (mtwister_expansion mt19937 1812433253 5489 399)
        (mtwister_expansion mt19937 1812433253 5489 2)
        (mtwister_expansion mt19937 1812433253 5489 3)"
    by (rule mersenne_twister_mt19937_word) simp_all
  show ?thesis
    unfolding w mt19937_word_399 mt19937_word_2 mt19937_word_3
    by (simp add: twist_word_mt19937 mtwister_temper_mt19937 Let_def)
qed

lemma mt19937_output_3:
  "mtwister_temper mt19937 (regenerate mt19937 (state (mersenne_twister mt19937 5489 1812433253)) ! 3) = 3586334585"
proof -
  have w: "regenerate mt19937 (state (mersenne_twister mt19937 5489 1812433253)) ! 3 =
      twist_word mt19937 (mtwister_expansion mt19937 1812433253 5489 400)
        (mtwister_expansion mt19937 1812433253 5489 3)
        (mtwister_expansion mt19937 1812433253 5489 4)"
    by (rule mersenne_twister_mt19937_word) simp_all
  show ?thesis
    unfolding w mt19937_word_400 mt19937_word_3 mt19937_word_4
    by (simp add: twist_word_mt19937 mtwister_temper_mt19937 Let_def)
qed

lemma mt19937_output_4:
  "mtwister_temper mt19937 (regenerate mt19937 (state (mersenne_twister mt19937 5489 1812433253)) ! 4) = 545404204"
proof -
  have w: "regenerate mt19937 (state (mersenne_twister mt19937 5489 1812433253)) ! 4 =
      twist_word mt19937 (mtwister_expansion mt19937 1812433253 5489 401)
        (mtwister_expansion mt19937 1812433253 5489 4)
        (mtwister_expansion mt19937 1812433253 5489 5)"
    by (rule mersenne_twister_mt19937_word) simp_all
  show ?thesis
    unfolding w mt19937_word_401 mt19937_word_4 mt19937_word_5
    by (simp add: twist_word_mt19937 mtwister_temper_mt19937 Let_def)
qed

lemma mt19937_output_5:
  "mtwister_temper mt19937 (regenerate mt19937 (state (mersenne_twister mt19937 5489 1812433253)) ! 5) = 4161255391"
proof -
  have w: "regenerate mt19937 (state (mersenne_twister mt19937 5489 1812433253)) ! 5 =
      twist_word mt19937 (mtwister_expansion mt19937 1812433253 5489 402)
        (mtwister_expansion mt19937 1812433253 5489 5)
        (mtwister_expansion mt19937 1812433253 5489 6)"
    by (rule mersenne_twister_mt19937_word) simp_all
  show ?thesis
    unfolding w mt19937_word_402 mt19937_word_5 mt19937_word_6
    by (simp add: twist_word_mt19937 mtwister_temper_mt19937 Let_def)
qed

lemma mt19937_output_6:
  "mtwister_temper mt19937 (regenerate mt19937 (state (mersenne_twister mt19937 5489 1812433253)) ! 6) = 3922919429"
proof -
  have w: "regenerate mt19937 (state (mersenne_twister mt19937 5489 1812433253)) ! 6 =
      twist_word mt19937 (mtwister_expansion mt19937 1812433253 5489 403)
        (mtwister_expansion mt19937 1812433253 5489 6)
        (mtwister_expansion mt19937 1812433253 5489 7)"
    by (rule mersenne_twister_mt19937_word) simp_all
  show ?thesis
    unfolding w mt19937_word_403 mt19937_word_6 mt19937_word_7
    by (simp add: twist_word_mt19937 mtwister_temper_mt19937 Let_def)
qed

lemma mt19937_output_7:
  "mtwister_temper mt19937 (regenerate mt19937 (state (mersenne_twister mt19937 5489 1812433253)) ! 7) = 949333985"
proof -
  have w: "regenerate mt19937 (state (mersenne_twister mt19937 5489 1812433253)) ! 7 =
      twist_word mt19937 (mtwister_expansion mt19937 1812433253 5489 404)
        (mtwister_expansion mt19937 1812433253 5489 7)
        (mtwister_expansion mt19937 1812433253 5489 8)"
    by (rule mersenne_twister_mt19937_word) simp_all
  show ?thesis
    unfolding w mt19937_word_404 mt19937_word_7 mt19937_word_8
    by (simp add: twist_word_mt19937 mtwister_temper_mt19937 Let_def)
qed

lemma mt19937_output_8:
  "mtwister_temper mt19937 (regenerate mt19937 (state (mersenne_twister mt19937 5489 1812433253)) ! 8) = 2715962298"
proof -
  have w: "regenerate mt19937 (state (mersenne_twister mt19937 5489 1812433253)) ! 8 =
      twist_word mt19937 (mtwister_expansion mt19937 1812433253 5489 405)
        (mtwister_expansion mt19937 1812433253 5489 8)
        (mtwister_expansion mt19937 1812433253 5489 9)"
    by (rule mersenne_twister_mt19937_word) simp_all
  show ?thesis
    unfolding w mt19937_word_405 mt19937_word_8 mt19937_word_9
    by (simp add: twist_word_mt19937 mtwister_temper_mt19937 Let_def)
qed

lemma mt19937_output_9:
  "mtwister_temper mt19937 (regenerate mt19937 (state (mersenne_twister mt19937 5489 1812433253)) ! 9) = 1323567403"
proof -
  have w: "regenerate mt19937 (state (mersenne_twister mt19937 5489 1812433253)) ! 9 =
      twist_word mt19937 (mtwister_expansion mt19937 1812433253 5489 406)
        (mtwister_expansion mt19937 1812433253 5489 9)
        (mtwister_expansion mt19937 1812433253 5489 10)"
    by (rule mersenne_twister_mt19937_word) simp_all
  show ?thesis
    unfolding w mt19937_word_406 mt19937_word_9 mt19937_word_10
    by (simp add: twist_word_mt19937 mtwister_temper_mt19937 Let_def)
qed

lemmas mt19937_outputs =
  mt19937_output_0 mt19937_output_1 mt19937_output_2 mt19937_output_3 mt19937_output_4 mt19937_output_5 mt19937_output_6 mt19937_output_7 mt19937_output_8 mt19937_output_9

lemma upt_10: "[0..<10] = [0, 1, 2, 3, 4, 5, 6, 7, 8, 9]"
  by (simp add: upt_rec)


subsection \<open>The state after \<open>reset(seed_count, seeds)\<close>\<close>

lemma seeds_loop1_Suc:
  "seeds_loop1 p sc seeds (Suc k) s = seeds_step1 p sc seeds (seeds_loop1 p sc seeds k s)"
  by (induction k arbitrary: s) simp_all

lemma seeds_loop2_Suc:
  "seeds_loop2 p (Suc k) s = seeds_step2 p (seeds_loop2 p k s)"
  by (induction k arbitrary: s) simp_all

lemma next_seed_index:
  assumes "0 < sc"
  shows "(if t mod sc + 1 \<ge> sc then 0 else t mod sc + 1) = Suc t mod sc"
proof -
  have "t mod sc < sc" using assms by simp
  then show ?thesis by (auto simp add: mod_Suc)
qed

text \<open>The first loop before it reaches the end of the array.\<close>

lemma seeds_loop1_sweep:
  assumes len: "length st0 = mt_n p" and sc: "0 < sc"
    and st0: "\<forall>x < mt_n p. st0 ! x = expansion p 19650218 x"
  shows "t + 2 \<le> mt_n p \<Longrightarrow>
         \<exists>st. seeds_loop1 p sc seeds t (st0, 1, 0) = (st, Suc t, t mod sc) \<and>
              length st = mt_n p \<and>
              (\<forall>x < mt_n p. st ! x =
                 (if x \<le> t then mixed1 p sc seeds x else expansion p 19650218 x))"
proof (induction t)
  case 0
  show ?case using len st0 by simp
next
  case (Suc t)
  then obtain st where loop: "seeds_loop1 p sc seeds t (st0, 1, 0) = (st, Suc t, t mod sc)"
    and l: "length st = mt_n p"
    and w: "\<forall>x < mt_n p. st ! x =
              (if x \<le> t then mixed1 p sc seeds x else expansion p 19650218 x)"
    by auto
  let ?v = "mix1 p (st ! Suc t) (st ! t) (seeds ! (t mod sc)) (t mod sc)"
  have inside: "\<not> Suc t + 1 \<ge> mt_n p" using Suc.prems by simp
  have "seeds_loop1 p sc seeds (Suc t) (st0, 1, 0) =
          seeds_step1 p sc seeds (st, Suc t, t mod sc)"
    unfolding seeds_loop1_Suc loop ..
  also have "\<dots> = (st[Suc t := ?v], Suc (Suc t), Suc t mod sc)"
    using inside next_seed_index [OF sc, of t] by (simp add: seeds_step1_def Let_def)
  finally have step: "seeds_loop1 p sc seeds (Suc t) (st0, 1, 0) =
    (st[Suc t := ?v], Suc (Suc t), Suc t mod sc)" .
  have v: "?v = mixed1 p sc seeds (Suc t)"
    using w Suc.prems by simp
  have "\<forall>x < mt_n p. st[Suc t := ?v] ! x =
          (if x \<le> Suc t then mixed1 p sc seeds x else expansion p 19650218 x)"
  proof (intro allI impI)
    fix x assume x: "x < mt_n p"
    show "st[Suc t := ?v] ! x =
            (if x \<le> Suc t then mixed1 p sc seeds x else expansion p 19650218 x)"
    proof (cases "x = Suc t")
      case True
      then show ?thesis using l x v by (simp del: mixed1.simps)
    next
      case False
      then show ?thesis using w x by (auto simp del: mixed1.simps expansion.simps)
    qed
  qed
  with step l show ?case by simp
qed

text \<open>The whole first loop, for at most \<open>n\<close> seeds.\<close>

lemma seeds_loop1_result:
  assumes len: "length st0 = mt_n p" and sc: "0 < sc" "sc \<le> mt_n p" and n: "3 \<le> mt_n p"
    and st0: "\<forall>x < mt_n p. st0 ! x = expansion p 19650218 x"
  shows "\<exists>st j. seeds_loop1 p sc seeds (max (mt_n p) sc) (st0, 1, 0) = (st, 2, j) \<and>
           length st = mt_n p \<and>
           st ! 0 = mixed1 p sc seeds (mt_n p - 1) \<and>
           st ! 1 = mixed1_last p sc seeds \<and>
           (\<forall>x. 2 \<le> x \<and> x < mt_n p \<longrightarrow> st ! x = mixed1 p sc seeds x)"
proof -
  define t where "t = mt_n p - 2"
  have nt: "mt_n p = Suc (Suc t)" using n by (simp add: t_def)
  have "t + 2 \<le> mt_n p" using nt by simp
  from seeds_loop1_sweep [OF len sc(1) st0 this, of seeds]
  obtain st where loop: "seeds_loop1 p sc seeds t (st0, 1, 0) = (st, Suc t, t mod sc)"
    and l: "length st = mt_n p"
    and w: "\<forall>x < mt_n p. st ! x =
              (if x \<le> t then mixed1 p sc seeds x else expansion p 19650218 x)"
    by auto
  let ?v = "mix1 p (st ! Suc t) (st ! t) (seeds ! (t mod sc)) (t mod sc)"
  let ?st1 = "(st[Suc t := ?v])[0 := ?v]"
  let ?j = "Suc t mod sc"
  let ?u = "mix1 p (?st1 ! 1) (?st1 ! 0) (seeds ! ?j) ?j"
  have v: "?v = mixed1 p sc seeds (Suc t)" using w nt by simp
  have step1: "seeds_step1 p sc seeds (st, Suc t, t mod sc) = (?st1, 1, ?j)"
    using next_seed_index [OF sc(1), of t] l nt by (simp add: seeds_step1_def Let_def)
  have t: "0 < t" using n nt by simp
  have step2: "seeds_step1 p sc seeds (?st1, 1, ?j) = (?st1[1 := ?u], 2, Suc (Suc t) mod sc)"
    using next_seed_index [OF sc(1), of "Suc t"] nt t
    by (simp add: seeds_step1_def Let_def del: One_nat_def)
  have "max (mt_n p) sc = Suc (Suc t)" using sc(2) nt by simp
  then have result: "seeds_loop1 p sc seeds (max (mt_n p) sc) (st0, 1, 0) =
          (?st1[1 := ?u], 2, Suc (Suc t) mod sc)"
    by (simp only: seeds_loop1_Suc loop step1 step2)
  have one: "?st1 ! 1 = mixed1 p sc seeds 1"
  proof (cases "t = 0")
    case True
    then show ?thesis using l nt v by (simp del: mixed1.simps)
  next
    case False
    then show ?thesis using l nt w by (simp del: mixed1.simps)
  qed
  have zero: "?st1 ! 0 = mixed1 p sc seeds (Suc t)" using l nt v by (simp del: mixed1.simps)
  have u: "?u = mixed1_last p sc seeds"
    unfolding one zero using nt by (simp add: mixed1_last_def del: mixed1.simps)
  have "\<forall>x. 2 \<le> x \<and> x < mt_n p \<longrightarrow> ?st1[1 := ?u] ! x = mixed1 p sc seeds x"
  proof (intro allI impI)
    fix x assume x: "2 \<le> x \<and> x < mt_n p"
    show "?st1[1 := ?u] ! x = mixed1 p sc seeds x"
    proof (cases "x = Suc t")
      case True
      then show ?thesis using l x v by (simp del: mixed1.simps)
    next
      case False
      then show ?thesis using l x w nt by (simp del: mixed1.simps)
    qed
  qed
  moreover have "?st1[1 := ?u] ! 0 = mixed1 p sc seeds (mt_n p - 1)"
    using zero nt l by (simp del: mixed1.simps)
  moreover have "?st1[1 := ?u] ! 1 = mixed1_last p sc seeds"
    using u l nt by (simp del: mixed1.simps)
  moreover have "length (?st1[1 := ?u]) = mt_n p" using l by simp
  ultimately show ?thesis using result by blast
qed

text \<open>The second loop before it reaches the end of the array.\<close>

lemma seeds_loop2_sweep:
  assumes len: "length st1 = mt_n p"
    and one: "st1 ! 1 = mixed1_last p sc seeds"
    and st1: "\<forall>x. 2 \<le> x \<and> x < mt_n p \<longrightarrow> st1 ! x = mixed1 p sc seeds x"
  shows "t + 3 \<le> mt_n p \<Longrightarrow>
         \<exists>st. seeds_loop2 p t (st1, 2) = (st, t + 2) \<and>
              length st = mt_n p \<and>
              (\<forall>x. 1 \<le> x \<and> x < mt_n p \<longrightarrow> st ! x =
                 (if x \<le> Suc t then mixed2 p sc seeds x else mixed1 p sc seeds x))"
proof (induction t)
  case 0
  have "\<forall>x. 1 \<le> x \<and> x < mt_n p \<longrightarrow> st1 ! x =
          (if x \<le> Suc 0 then mixed2 p sc seeds x else mixed1 p sc seeds x)"
  proof (intro allI impI)
    fix x assume x: "1 \<le> x \<and> x < mt_n p"
    show "st1 ! x = (if x \<le> Suc 0 then mixed2 p sc seeds x else mixed1 p sc seeds x)"
    proof (cases "x = 1")
      case True
      then show ?thesis using one by simp
    next
      case False
      then have "2 \<le> x" using x by simp
      then show ?thesis using st1 x by (simp del: mixed1.simps mixed2.simps)
    qed
  qed
  then show ?case using len by simp
next
  case (Suc t)
  then obtain st where loop: "seeds_loop2 p t (st1, 2) = (st, t + 2)"
    and l: "length st = mt_n p"
    and w: "\<forall>x. 1 \<le> x \<and> x < mt_n p \<longrightarrow> st ! x =
              (if x \<le> Suc t then mixed2 p sc seeds x else mixed1 p sc seeds x)"
    by auto
  let ?v = "mix2 p (st ! Suc (Suc t)) (st ! Suc t) (Suc (Suc t))"
  have "seeds_loop2 p (Suc t) (st1, 2) = seeds_step2 p (st, t + 2)"
    unfolding seeds_loop2_Suc loop ..
  also have "\<dots> = (st[Suc (Suc t) := ?v], Suc t + 2)"
    using Suc.prems by (simp add: seeds_step2_def Let_def)
  finally have step: "seeds_loop2 p (Suc t) (st1, 2) = (st[Suc (Suc t) := ?v], Suc t + 2)" .
  have a: "st ! Suc (Suc t) = mixed1 p sc seeds (Suc (Suc t))"
    using w Suc.prems by (simp del: mixed1.simps mixed2.simps)
  have b: "st ! Suc t = mixed2 p sc seeds (Suc t)"
    using w Suc.prems by (simp del: mixed1.simps mixed2.simps)
  have v: "?v = mixed2 p sc seeds (Suc (Suc t))"
    unfolding a b by simp
  have "\<forall>x. 1 \<le> x \<and> x < mt_n p \<longrightarrow> st[Suc (Suc t) := ?v] ! x =
          (if x \<le> Suc (Suc t) then mixed2 p sc seeds x else mixed1 p sc seeds x)"
  proof (intro allI impI)
    fix x assume x: "1 \<le> x \<and> x < mt_n p"
    show "st[Suc (Suc t) := ?v] ! x =
            (if x \<le> Suc (Suc t) then mixed2 p sc seeds x else mixed1 p sc seeds x)"
    proof (cases "x = Suc (Suc t)")
      case True
      then show ?thesis using l x v by (simp del: mixed1.simps mixed2.simps)
    next
      case False
      then show ?thesis using w x by (auto simp del: mixed1.simps mixed2.simps)
    qed
  qed
  with step l show ?case by simp
qed

text \<open>The whole second loop.\<close>

lemma seeds_loop2_result:
  assumes len: "length st1 = mt_n p" and n: "3 \<le> mt_n p"
    and one: "st1 ! 1 = mixed1_last p sc seeds"
    and st1: "\<forall>x. 2 \<le> x \<and> x < mt_n p \<longrightarrow> st1 ! x = mixed1 p sc seeds x"
  shows "\<exists>st i. seeds_loop2 p (mt_n p - 1) (st1, 2) = (st, i) \<and>
           length st = mt_n p \<and>
           (\<forall>x. 1 \<le> x \<and> x < mt_n p \<longrightarrow> st ! x = seeded p sc seeds x)"
proof -
  define t where "t = mt_n p - 3"
  have nt: "mt_n p = Suc (Suc (Suc t))" using n by (simp add: t_def)
  have "t + 3 \<le> mt_n p" using nt by simp
  from seeds_loop2_sweep [OF len one st1 this]
  obtain st where loop: "seeds_loop2 p t (st1, 2) = (st, t + 2)"
    and l: "length st = mt_n p"
    and w: "\<forall>x. 1 \<le> x \<and> x < mt_n p \<longrightarrow> st ! x =
              (if x \<le> Suc t then mixed2 p sc seeds x else mixed1 p sc seeds x)"
    by auto
  let ?v = "mix2 p (st ! Suc (Suc t)) (st ! Suc t) (Suc (Suc t))"
  let ?st2 = "(st[Suc (Suc t) := ?v])[0 := ?v]"
  let ?u = "mix2 p (?st2 ! 1) (?st2 ! 0) 1"
  have a: "st ! Suc (Suc t) = mixed1 p sc seeds (Suc (Suc t))"
    using w nt by (simp del: mixed1.simps mixed2.simps)
  have b: "st ! Suc t = mixed2 p sc seeds (Suc t)"
    using w nt by (simp del: mixed1.simps mixed2.simps)
  have v: "?v = mixed2 p sc seeds (Suc (Suc t))"
    unfolding a b by simp
  have step1: "seeds_step2 p (st, t + 2) = (?st2, 1)"
    using l nt by (simp add: seeds_step2_def Let_def)
  have step2: "seeds_step2 p (?st2, 1) = (?st2[1 := ?u], 2)"
    using nt by (simp add: seeds_step2_def Let_def del: One_nat_def)
  have "mt_n p - 1 = Suc (Suc t)" using nt by simp
  then have result: "seeds_loop2 p (mt_n p - 1) (st1, 2) = (?st2[1 := ?u], 2)"
    by (simp only: seeds_loop2_Suc loop step1 step2)
  have c: "?st2 ! 1 = mixed1_last p sc seeds"
    using l nt w by (simp del: mixed1.simps)
  have d: "?st2 ! 0 = mixed2 p sc seeds (mt_n p - 1)"
    using l nt v by (simp del: mixed1.simps mixed2.simps)
  have u: "?u = seeded p sc seeds 1"
    unfolding c d by (simp add: seeded_def)
  have "\<forall>x. 1 \<le> x \<and> x < mt_n p \<longrightarrow> ?st2[1 := ?u] ! x = seeded p sc seeds x"
  proof (intro allI impI)
    fix x assume x: "1 \<le> x \<and> x < mt_n p"
    consider "x = 1" | "x = Suc (Suc t)" | "2 \<le> x" "x \<le> Suc t" using x nt by linarith
    then show "?st2[1 := ?u] ! x = seeded p sc seeds x"
    proof cases
      case 1
      then show ?thesis using l nt u by (simp del: mixed1.simps mixed2.simps)
    next
      case 2
      then show ?thesis using l nt v
        by (simp add: seeded_def del: mixed1.simps mixed2.simps)
    next
      case 3
      then show ?thesis using l nt w x
        by (simp add: seeded_def del: mixed1.simps mixed2.simps)
    qed
  qed
  moreover have "length (?st2[1 := ?u]) = mt_n p" using l by simp
  ultimately show ?thesis using result by blast
qed

text \<open>\<open>reset(seed_count, seeds)\<close> leaves \<open>seeded x\<close> in \<open>state[x]\<close>.\<close>

lemma reset_seeds_nth:
  assumes len: "length (state g) = mt_n p" and sc: "0 < sc" "sc \<le> mt_n p"
    and n: "3 \<le> mt_n p"
  shows "length (state (reset_seeds p sc seeds g)) = mt_n p"
    and "index (reset_seeds p sc seeds g) = mt_n p"
    and "x < mt_n p \<Longrightarrow> state (reset_seeds p sc seeds g) ! x = seeded p sc seeds x"
proof -
  let ?st0 = "state (reset p 19650218 g)"
  have n0: "0 < mt_n p" using n by simp
  have l0: "length ?st0 = mt_n p" by (rule reset_nth(1) [OF len n0])
  have w0: "\<forall>x < mt_n p. ?st0 ! x = expansion p 19650218 x"
    using reset_nth(3) [OF len n0] by blast
  from seeds_loop1_result [OF l0 sc n w0, of seeds]
  obtain st1 j where loop1: "seeds_loop1 p sc seeds (max (mt_n p) sc) (?st0, 1, 0) = (st1, 2, j)"
    and l1: "length st1 = mt_n p"
    and one: "st1 ! 1 = mixed1_last p sc seeds"
    and w1: "\<forall>x. 2 \<le> x \<and> x < mt_n p \<longrightarrow> st1 ! x = mixed1 p sc seeds x"
    by blast
  from seeds_loop2_result [OF l1 n one w1]
  obtain st2 i where loop2: "seeds_loop2 p (mt_n p - 1) (st1, 2) = (st2, i)"
    and l2: "length st2 = mt_n p"
    and w2: "\<forall>x. 1 \<le> x \<and> x < mt_n p \<longrightarrow> st2 ! x = seeded p sc seeds x"
    by blast
  have r: "reset_seeds p sc seeds g =
             \<lparr>state = st2[0 := push_bit (mt_w p - 1) 1], index = mt_n p\<rparr>"
    by (simp only: reset_seeds_def loop1 loop2 prod.case)
  show "length (state (reset_seeds p sc seeds g)) = mt_n p" using r l2 by simp
  show "index (reset_seeds p sc seeds g) = mt_n p" using r by simp
  show "state (reset_seeds p sc seeds g) ! x = seeded p sc seeds x" if "x < mt_n p"
  proof (cases "x = 0")
    case True
    then show ?thesis using r l2 n0 by (simp add: seeded_def)
  next
    case False
    then show ?thesis using r l2 w2 that by simp
  qed
qed

subsection \<open>\<open>Mt19937_32\<close> constructed from the seed 5489\<close>

lemma Mt19937_32_params:
  "mt_n Mt19937_32 = 624" "mt_m Mt19937_32 = 397" "mt_w Mt19937_32 = 32"
  "word_mask Mt19937_32 = 4294967295"
  by (simp_all add: Mt19937_32_def word_mask_def mask_eq_exp_minus_1)

lemma expand_Mt19937_32:
  "expand Mt19937_32 x k = ((x XOR drop_bit 30 x) * 1812433253 + of_nat k) AND 4294967295"
  by (simp add: expand_def Mt19937_32_params) (simp add: Mt19937_32_def)

lemma mix1_Mt19937_32:
  "mix1 Mt19937_32 x prev seed j =
     ((x XOR ((prev XOR drop_bit 30 prev) * 1664525)) + seed + of_nat j) AND 4294967295"
  by (simp add: mix1_def Mt19937_32_params) (simp add: Mt19937_32_def)

lemma mix2_Mt19937_32:
  "mix2 Mt19937_32 x prev i =
     ((x XOR ((prev XOR drop_bit 30 prev) * 1566083941)) - of_nat i) AND 4294967295"
  by (simp add: mix2_def Mt19937_32_params) (simp add: Mt19937_32_def)

lemmas Mt19937_32_steps = expand_Mt19937_32 mix1_Mt19937_32 mix2_Mt19937_32

text \<open>One step of each chain, at a numeral.\<close>

lemma mixing1_numeral:
  "mixing1 p sc seeds (numeral k) =
     (case mixing1 p sc seeds (pred_numeral k) of
        (e, a) \<Rightarrow>
          (let e' = expand p e (numeral k)
           in (e', mix1 p e' a (seeds ! (pred_numeral k mod sc)) (pred_numeral k mod sc))))"
  by (simp add: mixing1_def numeral_eq_Suc Let_def)

lemma mixing2_numeral:
  assumes "x0 < pred_numeral k"
  shows "mixing2 p sc seeds (numeral k) =
     (case mixing2 p sc seeds (pred_numeral k) of
        (e, a, b) \<Rightarrow>
          (let e' = expand p e (numeral k);
               a' = mix1 p e' a (seeds ! (pred_numeral k mod sc)) (pred_numeral k mod sc)
           in (e', a', mix2 p a' b (numeral k))))"
  using assms by (simp add: mixing2_def numeral_eq_Suc Let_def)

lemma seeds_nth: "[a, b] ! 0 = a" "[a, b] ! Suc 0 = b" "[a, b] ! 1 = b"
  by simp_all

lemma ctor_mixing1_0: "mixing1 Mt19937_32 2 [5489, 0] 0 = (19650218, 19650218)"
  by (simp add: mixing1_def Mt19937_32_params)

lemma ctor_mixing1_Suc_0: "mixing1 Mt19937_32 2 [5489, 0] (Suc 0) = (2194844435, 4287176482)"
  by (simp add: mixing1_def Mt19937_32_params Mt19937_32_steps)

lemma ctor_mixing1_1: "mixing1 Mt19937_32 2 [5489, 0] 1 = (2194844435, 4287176482)"
  using ctor_mixing1_Suc_0 by simp

lemma ctor_mixing1_623: "mixing1 Mt19937_32 2 [5489, 0] 623 = (2905164258, 2488288332)"
  by (simp add: mixing1_numeral ctor_mixing1_Suc_0 ctor_mixing1_1 Mt19937_32_steps Let_def)

lemma ctor_mixed1_last: "mixed1_last Mt19937_32 2 [5489, 0] = 3512833237"
proof -
  have "mixed1 Mt19937_32 2 [5489, 0] 1 = 4287176482"
    using ctor_mixing1_1 by (simp add: mixing1_def del: mixed1.simps expansion.simps)
  moreover have "mixed1 Mt19937_32 2 [5489, 0] 623 = 2488288332"
    using ctor_mixing1_623 by (simp add: mixing1_def del: mixed1.simps expansion.simps)
  ultimately show ?thesis
    by (simp add: mixed1_last_def Mt19937_32_params mix1_Mt19937_32 del: mixed1.simps)
qed

lemma ctor_mixing2_Suc_0: "mixing2 Mt19937_32 2 [5489, 0] (Suc 0) = (2194844435, 4287176482, 3512833237)"
  using ctor_mixing1_Suc_0 ctor_mixed1_last
  by (simp add: mixing1_def mixing2_def del: mixed1.simps expansion.simps)

lemma ctor_mixing2_1: "mixing2 Mt19937_32 2 [5489, 0] 1 = (2194844435, 4287176482, 3512833237)"
  using ctor_mixing2_Suc_0 by simp

lemma ctor_mixing2_397: "mixing2 Mt19937_32 2 [5489, 0] 397 = (1394934451, 69744084, 3220188446)"
  by (simp add: mixing2_numeral [where ?x0.0 = 0] ctor_mixing2_Suc_0 ctor_mixing2_1
      Mt19937_32_steps Let_def)

lemma ctor_mixing2_623: "mixing2 Mt19937_32 2 [5489, 0] 623 = (2905164258, 2488288332, 2097021923)"
  by (simp add: mixing2_numeral [where ?x0.0 = 396] ctor_mixing2_397 Mt19937_32_steps Let_def)

text \<open>The three words of the state that the first random word is made of.\<close>

lemma ctor_seeded_0: "seeded Mt19937_32 2 [5489, 0] 0 = 2147483648"
  by (simp add: seeded_def Mt19937_32_params)

lemma ctor_seeded_1: "seeded Mt19937_32 2 [5489, 0] 1 = 2103618302"
proof -
  have "mixed2 Mt19937_32 2 [5489, 0] 623 = 2097021923"
    using ctor_mixing2_623
    by (simp add: mixing2_def del: mixed1.simps mixed2.simps expansion.simps)
  then show ?thesis
    by (simp add: seeded_def Mt19937_32_params ctor_mixed1_last mix2_Mt19937_32
        del: mixed2.simps)
qed

lemma ctor_seeded_397: "seeded Mt19937_32 2 [5489, 0] 397 = 3220188446"
  using ctor_mixing2_397
  by (simp add: seeded_def mixing2_def del: mixed1.simps mixed2.simps expansion.simps)

lemma Mersenne_Twister_5489:
  "Mersenne_Twister Mt19937_32 5489 =
     reset_seeds Mt19937_32 2 [5489, 0] \<lparr>state = replicate (mt_n Mt19937_32) 0, index = 0\<rparr>"
  by (simp add: Mersenne_Twister_def)

lemma Mt19937_32_masks:
  "drop_bit (64 - mt_w Mt19937_32) (push_bit (64 - mt_w Mt19937_32 + mt_r Mt19937_32) (- 1)) =
     (2147483648 :: word64)"
  "drop_bit (64 - mt_r Mt19937_32) (- 1) = (2147483647 :: word64)"
  by (simp_all add: Mt19937_32_def mask_eq_exp_minus_1)

lemma twist_word_Mt19937_32:
  "twist_word Mt19937_32 xi xj xk =
     (if xk AND 1 = 1
      then (xi XOR drop_bit 1 ((xj AND 2147483648) OR (xk AND 2147483647))) XOR 2567483615
      else xi XOR drop_bit 1 ((xj AND 2147483648) OR (xk AND 2147483647)))"
proof -
  have a: "mt_a Mt19937_32 = 2567483615" by (simp add: Mt19937_32_def)
  show ?thesis
    unfolding twist_word_def twisted_def Mt19937_32_masks a ..
qed

lemma ctor_first_word:
  "regenerate Mt19937_32 (state (Mersenne_Twister Mt19937_32 5489)) ! 0 = 3242293345"
proof -
  let ?g = "Mersenne_Twister Mt19937_32 5489"
  have l: "length (state \<lparr>state = replicate (mt_n Mt19937_32) 0, index = 0\<rparr>) = mt_n Mt19937_32"
    by simp
  have sc: "0 < (2::nat)" "2 \<le> mt_n Mt19937_32" and n: "3 \<le> mt_n Mt19937_32"
    by (simp_all add: Mt19937_32_params)
  note g = reset_seeds_nth [OF l sc n, where seeds = "[5489, 0]", folded Mersenne_Twister_5489]
  have "regenerate Mt19937_32 (state ?g) ! 0 =
          twist_word Mt19937_32 (state ?g ! (0 + mt_m Mt19937_32)) (state ?g ! 0) (state ?g ! (0 + 1))"
    using g(1) by (intro regenerate_nth) (simp_all add: Mt19937_32_params)
  moreover have "state ?g ! (0 + mt_m Mt19937_32) = 3220188446"
    using g(3) [where x = 397] by (simp add: Mt19937_32_params ctor_seeded_397)
  moreover have "state ?g ! 0 = 2147483648"
    using g(3) [where x = 0] by (simp add: Mt19937_32_params ctor_seeded_0)
  moreover have "state ?g ! (0 + 1) = 2103618302"
    using g(3) [where x = 1] ctor_seeded_1 by (simp add: Mt19937_32_params)
  ultimately have "regenerate Mt19937_32 (state ?g) ! 0 =
      twist_word Mt19937_32 3220188446 2147483648 2103618302"
    by (simp only:)
  also have "\<dots> = 3242293345"
    by (simp add: twist_word_Mt19937_32)
  finally show ?thesis .
qed

lemma ctor_index: "index (Mersenne_Twister Mt19937_32 5489) = mt_n Mt19937_32"
proof -
  have l: "length (state \<lparr>state = replicate (mt_n Mt19937_32) 0, index = 0\<rparr>) = mt_n Mt19937_32"
    by simp
  have sc: "0 < (2::nat)" "2 \<le> mt_n Mt19937_32" and n: "3 \<le> mt_n Mt19937_32"
    by (simp_all add: Mt19937_32_params)
  show ?thesis
    unfolding Mersenne_Twister_5489 by (rule reset_seeds_nth(2) [OF l sc n])
qed

lemma temper_first_word: "temper Mt19937_32 3242293345 = 3866587091"
  by (simp add: temper_def Let_def Mt19937_32_def)

subsection \<open>Determinism\<close>

text \<open>A call on one instance leaves the other one alone.\<close>

lemma interleaved_calls:
  "interleaved p s (g1, g2) = (calls p (calls_of First s) g1, calls p (calls_of Second s) g2)"
proof (induction s arbitrary: g1 g2)
  case Nil
  show ?case by simp
next
  case (Cons a s)
  obtain i c where a: "a = (i, c)" by (cases a)
  show ?case
  proof (cases i)
    case First
    then show ?thesis using a Cons.IH by (simp split: prod.splits)
  next
    case Second
    then show ?thesis using a Cons.IH by (simp split: prod.splits)
  qed
qed

text \<open>
  C4: two instances of \<open>Mersenne_Twister\<close> constructed from the same seed, called in any
  interleaving with the same sequence of \<open>rand()\<close> and \<open>operator()()\<close> calls on each, give the
  same sequence of outputs, and this sequence is that of the calls made on a single instance
  constructed from the seed.
\<close>

theorem Mersenne_Twister_deterministic:
  assumes "calls_of First s = calls_of Second s"
  shows "fst (interleaved p s (Mersenne_Twister p seed, Mersenne_Twister p seed)) =
         snd (interleaved p s (Mersenne_Twister p seed, Mersenne_Twister p seed)) \<and>
         fst (interleaved p s (Mersenne_Twister p seed, Mersenne_Twister p seed)) =
         calls p (calls_of First s) (Mersenne_Twister p seed)"
  using assms by (simp add: interleaved_calls)

theorem Mersenne_Twister_deterministic_witness:
  "calls_of First [(First, Call_rand), (Second, Call_rand), (Second, Call_operator),
                   (First, Call_operator)] =
   calls_of Second [(First, Call_rand), (Second, Call_rand), (Second, Call_operator),
                    (First, Call_operator)] \<and>
   fst (interleaved Mt19937_32
          [(First, Call_rand), (Second, Call_rand), (Second, Call_operator),
           (First, Call_operator)]
          (Mersenne_Twister Mt19937_32 5489, Mersenne_Twister Mt19937_32 5489)) =
   snd (interleaved Mt19937_32
          [(First, Call_rand), (Second, Call_rand), (Second, Call_operator),
           (First, Call_operator)]
          (Mersenne_Twister Mt19937_32 5489, Mersenne_Twister Mt19937_32 5489))"
  using Mersenne_Twister_deterministic
    [of "[(First, Call_rand), (Second, Call_rand), (Second, Call_operator),
          (First, Call_operator)]" Mt19937_32 5489]
  by simp

subsection \<open>The recurrence\<close>

lemma mixedD:
  assumes "mixed p X base k st"
  shows "length st = mt_n p"
    and "\<And>x. x < mt_n p \<Longrightarrow> x < k \<Longrightarrow> st ! x = X (base + mt_n p + x)"
    and "\<And>x. x < mt_n p \<Longrightarrow> k \<le> x \<Longrightarrow> st ! x = X (base + x)"
  using assms unfolding mixed_def by auto

text \<open>One \<open>twist\<close> that writes word \<open>k\<close> of the next block.\<close>

lemma twist_mixed:
  assumes mix: "mixed p X base k st" and k: "k < mt_n p" and j: "j < mt_n p" "j \<noteq> k"
    and i: "st ! i = X (base + k + mt_m p)" and nxt: "st ! j = X (base + k + 1)"
    and rec: "\<And>i. X (i + mt_n p) = twist_word p (X (i + mt_m p)) (X i) (X (i + 1))"
  shows "mixed p X base (Suc k) (twist p i k j st)"
proof -
  note m = mixedD [OF mix]
  from k m(1) have kl: "k < length st" by simp
  from j(2) have kj: "k \<noteq> j" by simp
  note tw = twist_nth [OF kl kj, where p = p and i = i]
  have "twist p i k j st ! k = twist_word p (X (base + k + mt_m p)) (X (base + k)) (X (base + k + 1))"
    using tw(2) i nxt m(3) [OF k] by simp
  also have "\<dots> = X (base + k + mt_n p)" using rec [of "base + k"] by simp
  finally have new: "twist p i k j st ! k = X (base + mt_n p + k)" by (simp add: add.commute add.left_commute)
  have "twist p i k j st ! x = (if x < Suc k then X (base + mt_n p + x) else X (base + x))"
    if x: "x < mt_n p" for x
  proof (cases "x = k")
    case True
    with new show ?thesis by simp
  next
    case False
    with tw(3) have "twist p i k j st ! x = st ! x" by simp
    with False m(2) [OF x] m(3) [OF x] show ?thesis by (cases "x < k") simp_all
  qed
  with tw(1) m(1) show ?thesis unfolding mixed_def by simp
qed

lemma twist_loop1_mixed:
  assumes "0 < mt_m p" and "mt_m p < mt_n p"
    and "\<And>i. X (i + mt_n p) = twist_word p (X (i + mt_m p)) (X i) (X (i + 1))"
    and "mixed p X base k st" and "k \<le> mt_n p - mt_m p"
  shows "mixed p X base (mt_n p - mt_m p) (twist_loop1 p st k)"
  using assms
proof (induction p st k rule: twist_loop1.induct)
  case (1 p st k)
  note unfold = twist_loop1.simps [of p st k]
  show ?case
  proof (cases "k < mt_n p - mt_m p")
    case False
    with "1.prems"(5) have "k = mt_n p - mt_m p" by simp
    moreover from False have "twist_loop1 p st k = st" by (subst unfold) simp
    ultimately show ?thesis using "1.prems"(4) by simp
  next
    case True
    define st' where "st' = twist p (k + mt_m p) k (k + 1) st"
    have run: "twist_loop1 p st k = twist_loop1 p st' (k + 1)"
      by (subst unfold) (simp add: True st'_def)
    note m = mixedD [OF "1.prems"(4)]
    from True "1.prems"(1) have a: "k + mt_m p < mt_n p" "k \<le> k + mt_m p" by simp_all
    from True "1.prems"(1,2) have b: "k + 1 < mt_n p" "k \<le> k + 1" "k < mt_n p" by simp_all
    have "mixed p X base (Suc k) st'"
      unfolding st'_def
    proof (rule twist_mixed [OF "1.prems"(4) b(3)])
      show "k + 1 < mt_n p" by (rule b(1))
      show "k + 1 \<noteq> k" by simp
      show "st ! (k + mt_m p) = X (base + k + mt_m p)"
        using m(3) [OF a] by (simp add: add.assoc)
      show "st ! (k + 1) = X (base + k + 1)"
        using m(3) [OF b(1,2)] by (simp add: add.assoc)
      show "X (i + mt_n p) = twist_word p (X (i + mt_m p)) (X i) (X (i + 1))" for i
        by (rule "1.prems"(3))
    qed
    then have "mixed p X base (k + 1) st'" by simp
    moreover from True have "k + 1 \<le> mt_n p - mt_m p" by simp
    ultimately show ?thesis
      unfolding run using "1.IH" [OF True, folded st'_def] "1.prems"(1-3) by blast
  qed
qed

lemma twist_loop2_mixed:
  assumes "0 < mt_m p" and "mt_m p < mt_n p"
    and "\<And>i. X (i + mt_n p) = twist_word p (X (i + mt_m p)) (X i) (X (i + 1))"
    and "mixed p X base k st" and "mt_n p - mt_m p \<le> k" and "k \<le> mt_n p - 1"
  shows "mixed p X base (mt_n p - 1) (twist_loop2 p st k)"
  using assms
proof (induction p st k rule: twist_loop2.induct)
  case (1 p st k)
  note unfold = twist_loop2.simps [of p st k]
  show ?case
  proof (cases "k < mt_n p - 1")
    case False
    with "1.prems"(6) have "k = mt_n p - 1" by simp
    moreover from False have "twist_loop2 p st k = st" by (subst unfold) simp
    ultimately show ?thesis using "1.prems"(4) by simp
  next
    case True
    define st' where "st' = twist p (k + mt_m p - mt_n p) k (k + 1) st"
    have run: "twist_loop2 p st k = twist_loop2 p st' (k + 1)"
      using True by (subst unfold) (simp add: st'_def)
    note m = mixedD [OF "1.prems"(4)]
    from True "1.prems"(1,2,5) have a: "k + mt_m p - mt_n p < mt_n p" "k + mt_m p - mt_n p < k"
      by simp_all
    from True have b: "k + 1 < mt_n p" "k \<le> k + 1" "k < mt_n p" by simp_all
    from "1.prems"(5) have c: "base + mt_n p + (k + mt_m p - mt_n p) = base + k + mt_m p"
      by simp
    have "mixed p X base (Suc k) st'"
      unfolding st'_def
    proof (rule twist_mixed [OF "1.prems"(4) b(3)])
      show "k + 1 < mt_n p" by (rule b(1))
      show "k + 1 \<noteq> k" by simp
      show "st ! (k + mt_m p - mt_n p) = X (base + k + mt_m p)"
        using m(2) [OF a] c by simp
      show "st ! (k + 1) = X (base + k + 1)"
        using m(3) [OF b(1,2)] by (simp add: add.assoc)
      show "X (i + mt_n p) = twist_word p (X (i + mt_m p)) (X i) (X (i + 1))" for i
        by (rule "1.prems"(3))
    qed
    then have "mixed p X base (k + 1) st'" by simp
    moreover from True "1.prems"(5) have "mt_n p - mt_m p \<le> k + 1" "k + 1 \<le> mt_n p - 1"
      by simp_all
    ultimately show ?thesis
      unfolding run using "1.IH" [OF True, folded st'_def] "1.prems"(1-3) by blast
  qed
qed

text \<open>Regenerating a block of the sequence gives the next block.\<close>

lemma regenerate_recurrence:
  assumes m: "0 < mt_m p" "mt_m p < mt_n p"
    and rec: "\<And>i. X (i + mt_n p) = twist_word p (X (i + mt_m p)) (X i) (X (i + 1))"
    and len: "length st = mt_n p" and st: "\<forall>x < mt_n p. st ! x = X (base + x)"
  shows "length (regenerate p st) = mt_n p"
    and "\<forall>x < mt_n p. regenerate p st ! x = X (base + mt_n p + x)"
proof -
  let ?n = "mt_n p"
  let ?s2 = "twist_loop2 p (twist_loop1 p st 0) (?n - mt_m p)"
  have "mixed p X base 0 st" using len st by (simp add: mixed_def)
  from twist_loop1_mixed [OF m rec this]
  have "mixed p X base (?n - mt_m p) (twist_loop1 p st 0)" by simp
  from twist_loop2_mixed [OF m rec this] m
  have s2: "mixed p X base (?n - 1) ?s2" by simp
  note d = mixedD [OF s2]
  from m have k: "?n - 1 < ?n" by simp
  have "mixed p X base (Suc (?n - 1)) (twist p (mt_m p - 1) (?n - 1) 0 ?s2)"
  proof (rule twist_mixed [OF s2 k])
    show "0 < ?n" using m by simp
    show "0 \<noteq> ?n - 1" using m by simp
    have "mt_m p - 1 < ?n" "mt_m p - 1 < ?n - 1" using m by simp_all
    from d(2) [OF this] m show "?s2 ! (mt_m p - 1) = X (base + (?n - 1) + mt_m p)"
      by (simp add: algebra_simps)
    have "0 < ?n" "0 < ?n - 1" using m by simp_all
    from d(2) [OF this] m show "?s2 ! 0 = X (base + (?n - 1) + 1)" by simp
    show "X (i + ?n) = twist_word p (X (i + mt_m p)) (X i) (X (i + 1))" for i by (rule rec)
  qed
  with m have "mixed p X base ?n (regenerate p st)" by (simp add: regenerate_def)
  then show "length (regenerate p st) = ?n"
    and "\<forall>x < ?n. regenerate p st ! x = X (base + ?n + x)"
    by (simp_all add: mixed_def)
qed

text \<open>The words drawn are the tempered words of the sequence, one after the other.\<close>

lemma mtwister_rands_recurrence:
  assumes m: "0 < mt_m p" "mt_m p < mt_n p"
    and rec: "\<And>i. X (i + mt_n p) = twist_word p (X (i + mt_m p)) (X i) (X (i + 1))"
    and "length (state g) = mt_n p" and "index g \<le> mt_n p"
    and "\<forall>x < mt_n p. state g ! x = X (b * mt_n p + x)"
    and "t + mt_n p = b * mt_n p + index g"
  shows "mtwister_rands p k g = map (\<lambda>s. mtwister_temper p (X (s + mt_n p))) [t..<t + k]"
  using assms(4-)
proof (induction k arbitrary: g b t)
  case 0
  show ?case by simp
next
  case (Suc k)
  let ?n = "mt_n p"
  have upt: "[t..<t + Suc k] = t # [t + 1..<t + 1 + k]" by (rule upt_shift)
  show ?case
  proof (cases "index g = ?n")
    case True
    let ?g = "\<lparr>state = regenerate p (state g), index = 1\<rparr>"
    note r = regenerate_recurrence [OF m rec Suc.prems(1,3)]
    have draw: "mtwister_rand p g = (mtwister_temper p (regenerate p (state g) ! 0), ?g)"
      using True by (simp add: mtwister_rand_def)
    from m have "0 < ?n" by simp
    with r(2) have "regenerate p (state g) ! 0 = X (b * ?n + ?n)" by simp
    also from Suc.prems(4) True have "b * ?n + ?n = t + ?n" by simp
    finally have first: "regenerate p (state g) ! 0 = X (t + ?n)" .
    have "mtwister_rands p k ?g =
        map (\<lambda>s. mtwister_temper p (X (s + ?n))) [t + 1..<t + 1 + k]"
    proof (rule Suc.IH [where b = "Suc b"])
      show "length (state ?g) = ?n" using r(1) by simp
      show "index ?g \<le> ?n" using m by simp
      show "\<forall>x < ?n. state ?g ! x = X (Suc b * ?n + x)"
        using r(2) by (simp add: add.commute add.left_commute)
      show "t + 1 + ?n = Suc b * ?n + index ?g"
        using Suc.prems(4) True by simp
    qed
    then show ?thesis
      unfolding upt by (simp only: mtwister_rands.simps draw prod.case first list.map)
  next
    case False
    with Suc.prems(2) have i: "index g < ?n" by simp
    let ?g = "g\<lparr>index := index g + 1\<rparr>"
    have draw: "mtwister_rand p g = (mtwister_temper p (state g ! index g), ?g)"
      using False by (simp add: mtwister_rand_def)
    from Suc.prems(3,4) i have first: "state g ! index g = X (t + ?n)" by simp
    have "mtwister_rands p k ?g =
        map (\<lambda>s. mtwister_temper p (X (s + ?n))) [t + 1..<t + 1 + k]"
    proof (rule Suc.IH [where b = b])
      show "length (state ?g) = ?n" using Suc.prems(1) by simp
      show "index ?g \<le> ?n" using i by simp
      show "\<forall>x < ?n. state ?g ! x = X (b * ?n + x)" using Suc.prems(3) by simp
      show "t + 1 + ?n = b * ?n + index ?g" using Suc.prems(4) by simp
    qed
    then show ?thesis
      unfolding upt by (simp only: mtwister_rands.simps draw prod.case first list.map)
  qed
qed

subsection \<open>The generator of mtwister.h and the reference generator\<close>

lemma spec_mt19937_word_expansion:
  "i < 624 \<Longrightarrow> spec_mt19937_word seed i = mtwister_expansion mt19937 1812433253 seed i"
proof (induction i)
  case 0
  show ?case
    by (subst spec_mt19937_word.simps) (simp add: mt19937_params)
next
  case (Suc i)
  then have IH: "spec_mt19937_word seed i = mtwister_expansion mt19937 1812433253 seed i"
    by simp
  have "spec_mt19937_word seed (Suc i) =
      (1812433253 * (spec_mt19937_word seed i XOR drop_bit 30 (spec_mt19937_word seed i)) +
       of_nat (Suc i)) AND 0xFFFFFFFF"
    using Suc.prems by (subst spec_mt19937_word.simps) simp
  then show ?case
    unfolding IH by (simp add: mtwister_expand_mt19937)
qed

lemma low_bit_of_mix:
  "((xj AND 0x80000000) OR (xk AND 0x7FFFFFFF)) AND 1 = xk AND (1 :: word64)"
  by (simp add: bit.conj_disj_distrib2 and.assoc)

lemma spec_mt19937_word_recurrence:
  "spec_mt19937_word seed (i + mt_n mt19937) =
     twist_word mt19937 (spec_mt19937_word seed (i + mt_m mt19937)) (spec_mt19937_word seed i)
       (spec_mt19937_word seed (i + 1))"
proof -
  have a: "i + 624 - 227 = i + 397" "i + 624 - 624 = i" "i + 624 - 623 = i + 1" by simp_all
  have "spec_mt19937_word seed (i + 624) =
      spec_mt19937_word seed (i + 397) XOR
        (drop_bit 1
           ((spec_mt19937_word seed i AND 0x80000000) OR
            (spec_mt19937_word seed (i + 1) AND 0x7FFFFFFF)) XOR
         (if spec_mt19937_word seed (i + 1) AND 1 = 1 then 0x9908B0DF else 0))"
    by (subst spec_mt19937_word.simps) (simp only: a low_bit_of_mix, simp)
  then show ?thesis
    unfolding mt19937_params by (simp add: twist_word_mt19937 xor.assoc)
qed

lemma mtwister_temper_reference:
  "mtwister_temper mt19937 (spec_mt19937_word seed (t + mt_n mt19937)) =
     spec_mt19937_output seed t"
  unfolding mt19937_params
  by (simp only: mtwister_temper_mt19937 spec_mt19937_output_def Let_def)

text \<open>Every word that the generator of mtwister.h draws is the word of the reference.\<close>

lemma mt19937_draws_reference:
  "mtwister_rands mt19937 k (mersenne_twister mt19937 seed 1812433253) =
     map (spec_mt19937_output seed) [0..<k]"
proof -
  let ?g = "mersenne_twister mt19937 seed 1812433253"
  let ?X = "spec_mt19937_word seed"
  have n: "0 < mt_n mt19937" and m: "0 < mt_m mt19937" "mt_m mt19937 < mt_n mt19937"
    by (simp_all add: mt19937_params)
  note g = mersenne_twister_nth [OF n, where seed = seed and multiplier = 1812433253]
  have init: "\<forall>x < mt_n mt19937. state ?g ! x = ?X (0 * mt_n mt19937 + x)"
    using g(3) by (simp add: spec_mt19937_word_expansion mt19937_params)
  have "mtwister_rands mt19937 k ?g =
      map (\<lambda>s. mtwister_temper mt19937 (?X (s + mt_n mt19937))) [0..<0 + k]"
  proof (rule mtwister_rands_recurrence [OF m _ g(1) _ init])
    show "?X (i + mt_n mt19937) =
        twist_word mt19937 (?X (i + mt_m mt19937)) (?X i) (?X (i + 1))" for i
      by (rule spec_mt19937_word_recurrence)
    show "index ?g \<le> mt_n mt19937" using g(2) by simp
    show "0 + mt_n mt19937 = 0 * mt_n mt19937 + index ?g" using g(2) by simp
  qed
  then show ?thesis
    by (simp only: mtwister_temper_reference add_0)
qed

subsection \<open>The reference sequence\<close>

text \<open>The first ten numbers of the reference generator are the published ones.\<close>

lemma spec_reference_first_numbers:
  "map (spec_mt19937_output 5489) [0..<10] = spec_reference_numbers"
proof -
  have n: "0 < mt_n mt19937" by (simp add: mt19937_params)
  have "mtwister_rands mt19937 10 (mersenne_twister mt19937 5489 1812433253) =
          map (\<lambda>x. mtwister_temper mt19937
                 (regenerate mt19937 (state (mersenne_twister mt19937 5489 1812433253)) ! x)) [0..<10]"
    using mersenne_twister_nth(2) [OF n, of 5489 1812433253]
    by (intro mtwister_rands_first) (simp_all add: mt19937_params)
  then have "mtwister_rands mt19937 10 (mersenne_twister mt19937 5489 1812433253) =
      spec_reference_numbers"
    unfolding upt_10 spec_reference_numbers_def by (simp only: list.map mt19937_outputs)
  then show ?thesis
    unfolding mt19937_draws_reference .
qed

text \<open>
  C3 as stated: the MT19937 generator constructed from the single seed 5489 gives the
  published reference sequence. It fails for \<open>Mt19937_32\<close> of random.h: the constructor of
  \<open>Mersenne_Twister\<close> splits the seed into two seeds and resets from this array, so the
  state is not the expansion of 5489 and the first word drawn is 3866587091, where the
  reference sequence starts with 3499211612.
\<close>

theorem Mt19937_32_reference_sequence_counterexample:
  "hd (rands Mt19937_32 10 (Mersenne_Twister Mt19937_32 5489)) = 3866587091 \<and>
   hd (map (spec_mt19937_output 5489) [0..<10]) = 3499211612 \<and>
   rands Mt19937_32 10 (Mersenne_Twister Mt19937_32 5489) \<noteq>
     map (spec_mt19937_output 5489) [0..<10]"
proof -
  let ?g = "Mersenne_Twister Mt19937_32 5489"
  have "rands Mt19937_32 10 ?g =
          map (\<lambda>x. temper Mt19937_32 (regenerate Mt19937_32 (state ?g) ! x)) [0..<10]"
    using ctor_index by (intro rands_first) (simp_all add: Mt19937_32_params)
  then have "hd (rands Mt19937_32 10 ?g) =
          temper Mt19937_32 (regenerate Mt19937_32 (state ?g) ! 0)"
    unfolding upt_10 by simp
  then have first: "hd (rands Mt19937_32 10 ?g) = 3866587091"
    unfolding ctor_first_word temper_first_word .
  have reference: "hd (map (spec_mt19937_output 5489) [0..<10]) = 3499211612"
    unfolding spec_reference_first_numbers by (simp add: spec_reference_numbers_def)
  with first have "hd (rands Mt19937_32 10 ?g) \<noteq> hd (map (spec_mt19937_output 5489) [0..<10])"
    by simp
  then have "rands Mt19937_32 10 ?g \<noteq> map (spec_mt19937_output 5489) [0..<10]"
    by (rule contrapos_nn) (rule arg_cong)
  with first reference show ?thesis by blast
qed

text \<open>
  C3, amended: the generator \<open>mt19937\<close> of mtwister.h, whose constructor expands a single
  seed with Knuth's linear congruential generator (multiplier 1812433253), gives the
  reference sequence of this seed: for every number \<open>k\<close> of draws, the words drawn are the
  first \<open>k\<close> outputs of the reference generator, through every regeneration of the state.
  For the seed 5489 the sequence starts with the ten published numbers.
\<close>

theorem mt19937_reference_sequence:
  "mtwister_rands mt19937 k (mersenne_twister mt19937 seed 1812433253) =
     map (spec_mt19937_output seed) [0..<k] \<and>
   map (spec_mt19937_output 5489) [0..<10] = spec_reference_numbers"
  using mt19937_draws_reference [of k seed] spec_reference_first_numbers by (rule conjI)

end
